theory Spec2Isabelle
  imports Main "HOL-Library.Multiset" "HOL-Library.Char_ord" "HOL-Library.List_Lexorder"
begin

section \<open>Data model (schema.ts)\<close>

text \<open>
  The TypeScript types of \<^verbatim>\<open>schema.ts\<close> as records. JavaScript numbers that hold ranks,
  points and week numbers are integers (a double holds every integer below \<open>2^53\<close>; the
  week numbers, which \<^verbatim>\<open>parseInt\<close> reads from names, are rounded to a double where they
  are computed); strings are \<^typ>\<open>string\<close>, with case mapping defined on
  the ASCII letters.

  Record fields share one name space in a theory, so \<^verbatim>\<open>ScreenshotFile.day\<close> is the field
  \<open>dayDir\<close> (the source fills it with the variable of that name) and
  \<^verbatim>\<open>ScreenshotFile.size\<close> is \<open>fsize\<close>;
  \<^verbatim>\<open>ProcessingResult.file\<close> is \<open>sfile\<close> (\<open>file\<close> is a keyword of the theory language).
\<close>

record RankingEntry =
  rank :: int
  commanderName :: string
  points :: int

record DayData =
  day :: string
  entries :: "RankingEntry list"

record WeekData =
  weekNumber :: int
  weekDate :: string
  dailyData :: "DayData list"
  weeklyData :: "RankingEntry list"

record Metadata =
  totalWeeks :: nat
  totalScreenshots :: nat
  extractedAt :: string

record ExtractedData =
  weeks :: "WeekData list"
  metadata :: Metadata

record ScreenshotFile =
  fileName :: string
  filePath :: string
  week :: string
  dayDir :: string
  fsize :: nat
  createdAt :: int

record ProcessingResult =
  sfile :: ScreenshotFile
  extracted :: "RankingEntry list"
  success :: bool
  error :: "string option"
  processingTime :: nat

section \<open>Strings\<close>

text \<open>
  \<^verbatim>\<open>toUpperCase\<close> and \<^verbatim>\<open>toLowerCase\<close> on the ASCII letters; every other character is
  left as it is.
\<close>

definition toLowerCase_char :: "char \<Rightarrow> char" where
  "toLowerCase_char c =
     (case map_of (zip ''ABCDEFGHIJKLMNOPQRSTUVWXYZ'' ''abcdefghijklmnopqrstuvwxyz'') c of
        Some l \<Rightarrow> l | None \<Rightarrow> c)"

definition toUpperCase_char :: "char \<Rightarrow> char" where
  "toUpperCase_char c =
     (case map_of (zip ''abcdefghijklmnopqrstuvwxyz'' ''ABCDEFGHIJKLMNOPQRSTUVWXYZ'') c of
        Some u \<Rightarrow> u | None \<Rightarrow> c)"

definition toLowerCase :: "string \<Rightarrow> string" where
  "toLowerCase s = map toLowerCase_char s"

definition toUpperCase :: "string \<Rightarrow> string" where
  "toUpperCase s = map toUpperCase_char s"

text \<open>\<^verbatim>\<open>s.charAt(0)\<close> is the first character as a string, empty when \<open>s\<close> is empty.\<close>

definition charAt0 :: "string \<Rightarrow> string" where
  "charAt0 s = take 1 s"

definition slice1 :: "string \<Rightarrow> string" where
  "slice1 s = drop 1 s"

definition isDigit :: "char \<Rightarrow> bool" where
  "isDigit c = (c \<in> set ''0123456789'')"

section \<open>Result aggregation (DataProcessor)\<close>

text \<open>The values of the enum \<^verbatim>\<open>DayOfWeek\<close>, in declaration order.\<close>

definition MONDAY :: string where "MONDAY = ''Monday''"
definition TUESDAY :: string where "TUESDAY = ''Tuesday''"
definition WEDNESDAY :: string where "WEDNESDAY = ''Wednesday''"
definition THURSDAY :: string where "THURSDAY = ''Thursday''"
definition FRIDAY :: string where "FRIDAY = ''Friday''"
definition SATURDAY :: string where "SATURDAY = ''Saturday''"
definition WEEKLY :: string where "WEEKLY = ''Weekly''"

definition DayOfWeek_values :: "string list" where
  "DayOfWeek_values = [MONDAY, TUESDAY, WEDNESDAY, THURSDAY, FRIDAY, SATURDAY, WEEKLY]"

definition normalizeDayName :: "string \<Rightarrow> string" where
  "normalizeDayName dayName =
     (let normalized = toUpperCase (charAt0 dayName) @ toLowerCase (slice1 dayName);
          matchingDay = find (\<lambda>d. toLowerCase d = toLowerCase normalized) DayOfWeek_values
      in case matchingDay of Some d \<Rightarrow> d | None \<Rightarrow> normalized)"

text \<open>
  \<^verbatim>\<open>Array.prototype.sort\<close> with the comparator \<^verbatim>\<open>(a, b) => a.rank - b.rank\<close> is a stable
  sort on the rank; \<^const>\<open>sort_key\<close> is the stable insertion sort.

  \<^verbatim>\<open>dailyData.find\<close> returns a reference to the first bucket with the label, and the push
  and the sort that follow change that bucket in place: \<open>update_first\<close> applies the change
  to the first element that satisfies the test.
\<close>

fun update_first :: "('a \<Rightarrow> bool) \<Rightarrow> ('a \<Rightarrow> 'a) \<Rightarrow> 'a list \<Rightarrow> 'a list" where
  "update_first P f [] = []"
| "update_first P f (x # xs) = (if P x then f x # xs else x # update_first P f xs)"

definition merge_entries :: "RankingEntry list \<Rightarrow> DayData \<Rightarrow> DayData" where
  "merge_entries new dayData =
     (let existingRanks = set (map rank (entries dayData));
          newEntries = filter (\<lambda>e. rank e \<notin> existingRanks) new
      in dayData\<lparr>entries := sort_key rank (entries dayData @ newEntries)\<rparr>)"

definition addResultToWeekData :: "WeekData \<Rightarrow> ProcessingResult \<Rightarrow> WeekData" where
  "addResultToWeekData weekData result =
     (let dayName = normalizeDayName (dayDir (sfile result))
      in if dayName = WEEKLY
         then weekData\<lparr>weeklyData := sort_key rank (weeklyData weekData @ extracted result)\<rparr>
         else
           (let dd = (case find (\<lambda>d. day d = dayName) (dailyData weekData) of
                        Some d \<Rightarrow> dailyData weekData
                      | None \<Rightarrow> dailyData weekData @ [\<lparr>day = dayName, entries = []\<rparr>])
            in weekData\<lparr>dailyData :=
                 update_first (\<lambda>d. day d = dayName) (merge_entries (extracted result)) dd\<rparr>))"

text \<open>The records of the first bucket with a label, as \<^verbatim>\<open>find\<close> sees it; none when absent.\<close>

definition bucket :: "WeekData \<Rightarrow> string \<Rightarrow> RankingEntry list" where
  "bucket w d = (case find (\<lambda>x. day x = d) (dailyData w) of Some x \<Rightarrow> entries x | None \<Rightarrow> [])"

text \<open>The same merge on the record list alone.\<close>

definition merge_ranked :: "RankingEntry list \<Rightarrow> RankingEntry list \<Rightarrow> RankingEntry list" where
  "merge_ranked old new =
     sort_key rank (old @ filter (\<lambda>e. rank e \<notin> set (map rank old)) new)"

section \<open>Week names\<close>

text \<open>
  The regular expression \<^verbatim>\<open>/week(\d+)/i\<close> of \<^verbatim>\<open>DataProcessor.extractWeekNumber\<close> and of
  \<^verbatim>\<open>getWeekNumber\<close> in \<^verbatim>\<open>FileSystemUtils.compareWeeks\<close>: not anchored, so \<^verbatim>\<open>match\<close> tries
  every start position from the left; at a position it needs the four letters in either
  case and then at least one digit, and the group captures the longest run of digits.
  The result is the captured group of the leftmost match.
\<close>

fun match_week_digits :: "string \<Rightarrow> string option" where
  "match_week_digits [] = None"
| "match_week_digits (c # cs) =
     (if toLowerCase (take 4 (c # cs)) = ''week'' \<and> takeWhile isDigit (drop 4 (c # cs)) \<noteq> []
      then Some (takeWhile isDigit (drop 4 (c # cs)))
      else match_week_digits cs)"

definition digit_value :: "char \<Rightarrow> int" where
  "digit_value c =
     (case map_of (zip ''0123456789'' [0, 1, 2, 3, 4, 5, 6, 7, 8, 9]) c of
        Some v \<Rightarrow> v | None \<Rightarrow> 0)"

text \<open>The number that a string of decimal digits writes.\<close>

definition decimal_value :: "string \<Rightarrow> int" where
  "decimal_value s = foldl (\<lambda>n c. 10 * n + digit_value c) 0 s"

text \<open>
  A JavaScript number is a double. \<open>toNumber n\<close> is the double nearest to the integer
  \<open>n \<ge> 0\<close>, ties going to the even significand: \<open>n\<close> itself below \<open>2^53\<close>, and above it
  \<open>n\<close> rounded to 53 significant bits, \<open>excess n\<close> being the number of bits dropped. From
  \<open>2^1024 - 2^970\<close> on the double is \<^verbatim>\<open>Infinity\<close>, which \<open>2^1024\<close> stands for: it is above
  every other double, and it is equal to itself in a comparison by difference, where
  \<^verbatim>\<open>Infinity - Infinity\<close> is \<^verbatim>\<open>NaN\<close> and a sort takes \<^verbatim>\<open>NaN\<close> for 0.
\<close>

function excess :: "int \<Rightarrow> nat" where
  "excess n = (if n < 9007199254740992 then 0 else Suc (excess (n div 2)))"
  by pat_completeness auto
termination
  by (relation "measure nat") auto

declare excess.simps [simp del]

definition toNumber :: "int \<Rightarrow> int" where
  "toNumber n =
     (let e = excess n;
          q = n div 2 ^ e;
          r = n mod 2 ^ e;
          q' = (if 2 ^ e < 2 * r \<or> (2 * r = 2 ^ e \<and> odd q) then q + 1 else q);
          v = q' * 2 ^ e
      in if 2 ^ 1024 \<le> v then 2 ^ 1024 else v)"

text \<open>\<^verbatim>\<open>parseInt(s, 10)\<close> on a string of decimal digits.\<close>

definition parseInt10 :: "string \<Rightarrow> int" where
  "parseInt10 s = toNumber (decimal_value s)"

definition extractWeekNumber :: "string \<Rightarrow> int" where
  "extractWeekNumber weekDir =
     (case match_week_digits weekDir of Some ds \<Rightarrow> parseInt10 ds | None \<Rightarrow> 0)"

section \<open>Dates (the built-in \<^verbatim>\<open>Date\<close> as the source uses it)\<close>

text \<open>
  A \<^verbatim>\<open>Date\<close> holds a time value: the milliseconds since 1970-01-01T00:00Z, or \<^verbatim>\<open>NaN\<close>
  (\<open>None\<close>) for an invalid date. The functions below are the abstract operations of the
  language standard on time values. The local time zone of the process is the parameter
  \<open>tz\<close>, which gives the offset from UTC at every time.
\<close>

definition msPerDay :: int where
  "msPerDay = 86400000"

definition Day :: "int \<Rightarrow> int" where
  "Day t = t div msPerDay"

definition TimeWithinDay :: "int \<Rightarrow> int" where
  "TimeWithinDay t = t mod msPerDay"

definition DaysInYear :: "int \<Rightarrow> int" where
  "DaysInYear y =
     (if y mod 4 \<noteq> 0 then 365 else if y mod 100 \<noteq> 0 then 366
      else if y mod 400 \<noteq> 0 then 365 else 366)"

definition DayFromYear :: "int \<Rightarrow> int" where
  "DayFromYear y = 365 * (y - 1970) + (y - 1969) div 4 - (y - 1901) div 100 + (y - 1601) div 400"

definition TimeFromYear :: "int \<Rightarrow> int" where
  "TimeFromYear y = msPerDay * DayFromYear y"

text \<open>
  The standard defines \<^verbatim>\<open>YearFromTime(t)\<close> as the largest \<open>y\<close> with
  \<^verbatim>\<open>TimeFromYear(y)\<close> \<open>\<le> t\<close>. This is computed from an estimate that is off by at most
  one (\<open>YearFromTime_largest\<close> below proves that the result is that \<open>y\<close>).
\<close>

definition YearFromDay :: "int \<Rightarrow> int" where
  "YearFromDay d =
     (let y = 1970 + (400 * d) div 146097
      in if DayFromYear (y + 1) \<le> d then y + 1 else if DayFromYear y \<le> d then y else y - 1)"

definition YearFromTime :: "int \<Rightarrow> int" where
  "YearFromTime t = YearFromDay (Day t)"

definition InLeapYear :: "int \<Rightarrow> int" where
  "InLeapYear t = (if DaysInYear (YearFromTime t) = 366 then 1 else 0)"

definition DayWithinYear :: "int \<Rightarrow> int" where
  "DayWithinYear t = Day t - DayFromYear (YearFromTime t)"

definition MonthFromTime :: "int \<Rightarrow> int" where
  "MonthFromTime t =
     (let d = DayWithinYear t; l = InLeapYear t
      in if d < 31 then 0 else if d < 59 + l then 1 else if d < 90 + l then 2
         else if d < 120 + l then 3 else if d < 151 + l then 4 else if d < 181 + l then 5
         else if d < 212 + l then 6 else if d < 243 + l then 7 else if d < 273 + l then 8
         else if d < 304 + l then 9 else if d < 334 + l then 10 else 11)"

definition DateFromTime :: "int \<Rightarrow> int" where
  "DateFromTime t =
     (let d = DayWithinYear t; l = InLeapYear t; m = MonthFromTime t
      in if m = 0 then d + 1 else if m = 1 then d - 30 else if m = 2 then d - 58 - l
         else if m = 3 then d - 89 - l else if m = 4 then d - 119 - l
         else if m = 5 then d - 150 - l else if m = 6 then d - 180 - l
         else if m = 7 then d - 211 - l else if m = 8 then d - 242 - l
         else if m = 9 then d - 272 - l else if m = 10 then d - 303 - l else d - 333 - l)"

definition HourFromTime :: "int \<Rightarrow> int" where
  "HourFromTime t = (t div 3600000) mod 24"

definition MinFromTime :: "int \<Rightarrow> int" where
  "MinFromTime t = (t div 60000) mod 60"

definition SecFromTime :: "int \<Rightarrow> int" where
  "SecFromTime t = (t div 1000) mod 60"

definition msFromTime :: "int \<Rightarrow> int" where
  "msFromTime t = t mod 1000"

text \<open>
  \<^verbatim>\<open>MakeDay(year, month, date)\<close>: the day number of the first of the month, plus
  \<open>date - 1\<close>. The first of the month is the first day of the year plus the days of the
  months before.
\<close>

definition daysBeforeMonth :: "int \<Rightarrow> int \<Rightarrow> int" where
  "daysBeforeMonth mn l =
     (if mn = 0 then 0 else if mn = 1 then 31 else if mn = 2 then 59 + l
      else if mn = 3 then 90 + l else if mn = 4 then 120 + l else if mn = 5 then 151 + l
      else if mn = 6 then 181 + l else if mn = 7 then 212 + l else if mn = 8 then 243 + l
      else if mn = 9 then 273 + l else if mn = 10 then 304 + l else 334 + l)"

definition MakeDay :: "int \<Rightarrow> int \<Rightarrow> int \<Rightarrow> int" where
  "MakeDay year month date =
     (let ym = year + month div 12; mn = month mod 12;
          l = (if DaysInYear ym = 366 then 1 else 0)
      in DayFromYear ym + daysBeforeMonth mn l + date - 1)"

definition MakeDate :: "int \<Rightarrow> int \<Rightarrow> int" where
  "MakeDate dy tm = dy * msPerDay + tm"

definition TimeClip :: "int \<Rightarrow> int option" where
  "TimeClip t = (if \<bar>t\<bar> > 8640000000000000 then None else Some t)"

text \<open>
  The time zone of the process gives the offset of local time from UTC, in milliseconds:
  \<open>tz t True\<close> at the UTC time \<open>t\<close>, and \<open>tz t False\<close> at the local time \<open>t\<close>
  (\<^verbatim>\<open>LocalTZA(t, isUTC)\<close> of the language specification). The offset changes where
  daylight saving time begins or ends.
\<close>

type_synonym zone = "int \<Rightarrow> bool \<Rightarrow> int"

definition fixed_offset :: "int \<Rightarrow> zone" where
  "fixed_offset ms = (\<lambda>t isUTC. ms)"

text \<open>
  No two offsets of a zone are two days apart: the offsets of the zones in use lie
  between twelve hours behind and fourteen hours ahead, and a fixed offset has no
  difference at all.
\<close>

definition steady :: "zone \<Rightarrow> bool" where
  "steady tz = (\<forall>t t'. \<bar>tz t True - tz t' False\<bar> < 2 * msPerDay)"

definition LocalTime :: "zone \<Rightarrow> int \<Rightarrow> int" where
  "LocalTime tz t = t + tz t True"

definition UTC :: "zone \<Rightarrow> int \<Rightarrow> int" where
  "UTC tz t = t - tz t False"

text \<open>\<^verbatim>\<open>new Date('2024-01-01')\<close>: a date without a time is read as UTC midnight.\<close>

definition Date_2024_01_01 :: "int option" where
  "Date_2024_01_01 = TimeClip (MakeDate (MakeDay 2024 0 1) 0)"

text \<open>\<^verbatim>\<open>getDate\<close> and \<^verbatim>\<open>setDate\<close> work in local time.\<close>

definition getDate :: "zone \<Rightarrow> int option \<Rightarrow> int option" where
  "getDate tz tv = map_option (\<lambda>t. DateFromTime (LocalTime tz t)) tv"

definition setDate :: "zone \<Rightarrow> int option \<Rightarrow> int \<Rightarrow> int option" where
  "setDate tz tv dt =
     (case tv of
        None \<Rightarrow> None
      | Some t0 \<Rightarrow>
          (let t = LocalTime tz t0;
               newDate = MakeDate (MakeDay (YearFromTime t) (MonthFromTime t) dt) (TimeWithinDay t)
           in TimeClip (UTC tz newDate)))"

text \<open>Decimal digits, the number padded with zeros to a width.\<close>

definition digit_char :: "int \<Rightarrow> char" where
  "digit_char d = ''0123456789'' ! nat d"

fun pad :: "nat \<Rightarrow> int \<Rightarrow> string" where
  "pad 0 n = []"
| "pad (Suc k) n = pad k (n div 10) @ [digit_char (n mod 10)]"

text \<open>
  \<^verbatim>\<open>toISOString\<close> throws a \<^verbatim>\<open>RangeError\<close> on an invalid date. The year has four digits
  from 0 to 9999, and a sign and six digits outside.
\<close>

datatype process_error =
    NoSuccessfulResults   \<comment> \<open>\<^verbatim>\<open>No successful results to process\<close>\<close>
  | InvalidTimeValue      \<comment> \<open>\<^verbatim>\<open>RangeError: Invalid time value\<close>\<close>

definition isoYear :: "int \<Rightarrow> string" where
  "isoYear y =
     (if 0 \<le> y \<and> y \<le> 9999 then pad 4 y
      else (if y < 0 then ''-'' else ''+'') @ pad 6 \<bar>y\<bar>)"

definition toISOString :: "int option \<Rightarrow> process_error + string" where
  "toISOString tv =
     (case tv of
        None \<Rightarrow> Inl InvalidTimeValue
      | Some t \<Rightarrow>
          Inr (isoYear (YearFromTime t) @ ''-'' @ pad 2 (MonthFromTime t + 1) @ ''-''
               @ pad 2 (DateFromTime t) @ ''T'' @ pad 2 (HourFromTime t) @ '':''
               @ pad 2 (MinFromTime t) @ '':'' @ pad 2 (SecFromTime t) @ ''.''
               @ pad 3 (msFromTime t) @ ''Z''))"

text \<open>\<^verbatim>\<open>s.split('T')[0]\<close>: the part of \<open>s\<close> before the first \<open>T\<close>.\<close>

definition split_T_0 :: "string \<Rightarrow> string" where
  "split_T_0 s = takeWhile (\<lambda>c. c \<noteq> CHR ''T'') s"

definition calculateWeekStartDate :: "zone \<Rightarrow> string \<Rightarrow> process_error + string" where
  "calculateWeekStartDate tz weekDir =
     (let wNumber = extractWeekNumber weekDir;
          baseDate = Date_2024_01_01;
          baseDate' = (case getDate tz baseDate of
                         None \<Rightarrow> None
                       | Some d \<Rightarrow> setDate tz baseDate (d + (wNumber - 1) * 7))
      in case toISOString baseDate' of
           Inl e \<Rightarrow> Inl e
         | Inr s \<Rightarrow> Inr (split_T_0 s))"

section \<open>Validation (DataProcessor.validateWeekData)\<close>

text \<open>
  The messages pushed on \<^verbatim>\<open>issues\<close>, one constructor for each template string of the
  source, with the value the template interpolates.
\<close>

datatype issue =
    InvalidWeekNumber int      \<comment> \<open>\<^verbatim>\<open>Invalid week number: ${weekData.weekNumber}\<close>\<close>
  | MissingWeekDate            \<comment> \<open>\<^verbatim>\<open>Missing week date\<close>\<close>
  | NoDailyData                \<comment> \<open>\<^verbatim>\<open>No daily data found\<close>\<close>
  | InvalidDayName string      \<comment> \<open>\<^verbatim>\<open>Invalid day name: ${day.day}\<close>\<close>
  | NoEntries string           \<comment> \<open>\<^verbatim>\<open>No entries found for day: ${day.day}\<close>\<close>
  | DuplicateRanks string      \<comment> \<open>\<^verbatim>\<open>Duplicate ranks found for day: ${day.day}\<close>\<close>

text \<open>
  The body of the \<^verbatim>\<open>forEach\<close> over the daily buckets, with the list of issues passed
  through. The size of \<^verbatim>\<open>new Set(ranks)\<close> is the number of distinct ranks.
\<close>

definition validate_day :: "issue list \<Rightarrow> DayData \<Rightarrow> issue list" where
  "validate_day issues d =
     (let issues1 =
            (if day d = [] \<or> day d \<notin> set DayOfWeek_values
             then issues @ [InvalidDayName (day d)] else issues)
      in if length (entries d) = 0 then issues1 @ [NoEntries (day d)]
         else (let ranks = map rank (entries d);
                   uniqueRanks = remdups ranks
               in if length ranks \<noteq> length uniqueRanks
                  then issues1 @ [DuplicateRanks (day d)] else issues1))"

definition validateWeekData :: "WeekData \<Rightarrow> bool \<times> issue list" where
  "validateWeekData weekData =
     (let issues0 = [];
          issues1 = (if weekNumber weekData \<le> 0
                     then issues0 @ [InvalidWeekNumber (weekNumber weekData)] else issues0);
          issues2 = (if weekDate weekData = [] then issues1 @ [MissingWeekDate] else issues1);
          issues3 = (if length (dailyData weekData) = 0 then issues2 @ [NoDailyData]
                     else foldl validate_day issues2 (dailyData weekData))
      in (length issues3 = 0, issues3))"

fun isInvalidDayName :: "issue \<Rightarrow> bool" where
  "isInvalidDayName (InvalidDayName _) = True"
| "isInvalidDayName _ = False"

fun isNoEntries :: "issue \<Rightarrow> bool" where
  "isNoEntries (NoEntries _) = True"
| "isNoEntries _ = False"

fun isDuplicateRanks :: "issue \<Rightarrow> bool" where
  "isDuplicateRanks (DuplicateRanks _) = True"
| "isDuplicateRanks _ = False"

fun isInvalidWeekNumber :: "issue \<Rightarrow> bool" where
  "isInvalidWeekNumber (InvalidWeekNumber _) = True"
| "isInvalidWeekNumber _ = False"

section \<open>Directory taxonomy (FileSystemUtils)\<close>

subsection \<open>The file system\<close>

text \<open>
  A snapshot of the tree below the input path. A node is a regular file or a directory;
  both carry what \<^verbatim>\<open>fs.stat\<close> reports (size and birth time). A directory lists its
  entries in the order \<^verbatim>\<open>readdir\<close> returns them (on POSIX systems the byte order of the
  names, which a claim that depends on it assumes). Names of entries hold no separator.
\<close>

datatype fsnode = File nat int | Dir nat int "(string \<times> fsnode) list"

fun stat :: "fsnode \<Rightarrow> nat \<times> int" where
  "stat (File s b) = (s, b)"
| "stat (Dir s b es) = (s, b)"

fun isDirectory :: "fsnode \<Rightarrow> bool" where
  "isDirectory (File s b) = False"
| "isDirectory (Dir s b es) = True"

text \<open>\<^verbatim>\<open>readdir\<close> throws on a regular file: \<open>None\<close>.\<close>

fun readdir :: "fsnode \<Rightarrow> (string \<times> fsnode) list option" where
  "readdir (File s b) = None"
| "readdir (Dir s b es) = Some es"

definition child :: "fsnode \<Rightarrow> string \<Rightarrow> fsnode option" where
  "child n name = (case readdir n of None \<Rightarrow> None | Some es \<Rightarrow> map_of es name)"

text \<open>Names are distinct in every directory of the tree.\<close>

fun wf_fs :: "fsnode \<Rightarrow> bool" where
  "wf_fs (File s b) = True"
| "wf_fs (Dir s b es) = (distinct (map fst es) \<and> list_all (\<lambda>e. wf_fs (snd e)) es)"

subsection \<open>Paths\<close>

text \<open>
  \<^verbatim>\<open>path.join\<close> of a path and a name (the normalisation that \<^verbatim>\<open>path.join\<close> also does is
  left out), \<^verbatim>\<open>path.basename\<close> and \<^verbatim>\<open>path.extname\<close> for POSIX paths.
\<close>

definition path_join :: "string \<Rightarrow> string \<Rightarrow> string" where
  "path_join p name = p @ ''/'' @ name"

definition basename :: "string \<Rightarrow> string" where
  "basename p =
     rev (takeWhile (\<lambda>c. c \<noteq> CHR ''/'') (dropWhile (\<lambda>c. c = CHR ''/'') (rev p)))"

text \<open>
  The extension of a file name without separator: from the last dot to the end; empty
  when there is no dot, when the last dot is the first character, and for the name
  \<^verbatim>\<open>..\<close>.
\<close>

definition extname :: "string \<Rightarrow> string" where
  "extname name =
     (if CHR ''.'' \<notin> set name then []
      else (let startDot = length name - length (takeWhile (\<lambda>c. c \<noteq> CHR ''.'') (rev name)) - 1
            in if startDot = 0 \<or> name = ''..'' then [] else drop startDot name))"

subsection \<open>Names of week and day directories, image files\<close>

text \<open>
  \<^verbatim>\<open>/^week\d+$/i\<close> in \<^verbatim>\<open>src/utils/fileSystem.ts\<close>: the four letters in either case, then at
  least one digit, then the end of the name.
\<close>

definition isWeekDirectory :: "string \<Rightarrow> bool" where
  "isWeekDirectory name =
     (toLowerCase (take 4 name) = ''week'' \<and> drop 4 name \<noteq> [] \<and> list_all isDigit (drop 4 name))"

text \<open>
  The repository holds a second copy of \<^verbatim>\<open>FileSystemUtils\<close> (the scanner of all week
  directories), whose test is \<^verbatim>\<open>/^week\d*$/i\<close> under the comment
  ``Also allow just "week" as a directory name''.
\<close>

definition isWeekDirectory_alt :: "string \<Rightarrow> bool" where
  "isWeekDirectory_alt name =
     (toLowerCase (take 4 name) = ''week'' \<and> list_all isDigit (drop 4 name))"

definition normalizeDay :: "string \<Rightarrow> string" where
  "normalizeDay d = toUpperCase (charAt0 d) @ toLowerCase (slice1 d)"

definition isDayDirectory :: "string \<Rightarrow> bool" where
  "isDayDirectory name = (normalizeDay name \<in> set DayOfWeek_values)"

definition imageExtensions :: "string list" where
  "imageExtensions = [''.jpg'', ''.jpeg'', ''.png'', ''.gif'', ''.bmp'', ''.webp'']"

definition isImageFile :: "string \<Rightarrow> bool" where
  "isImageFile name = (toLowerCase (extname name) \<in> set imageExtensions)"

subsection \<open>Comparators\<close>

text \<open>
  \<^verbatim>\<open>getWeekNumber\<close> reads the digits with \<^verbatim>\<open>parseInt\<close>: the number is a double, see
  \<^const>\<open>toNumber\<close>.
\<close>

definition getWeekNumber :: "string \<Rightarrow> int" where
  "getWeekNumber w = (case match_week_digits w of Some ds \<Rightarrow> parseInt10 ds | None \<Rightarrow> 0)"

definition compareWeeks :: "string \<Rightarrow> string \<Rightarrow> int" where
  "compareWeeks a b = getWeekNumber a - getWeekNumber b"

definition dayOrder :: "string \<Rightarrow> int option" where
  "dayOrder = map_of [(MONDAY, 1), (TUESDAY, 2), (WEDNESDAY, 3), (THURSDAY, 4), (FRIDAY, 5),
                      (SATURDAY, 6), (WEEKLY, 7)]"

text \<open>\<^verbatim>\<open>dayOrder[normalizeDay(day)] || 999\<close>\<close>

definition dayOrderOf :: "string \<Rightarrow> int" where
  "dayOrderOf d = (case dayOrder (normalizeDay d) of Some n \<Rightarrow> n | None \<Rightarrow> 999)"

definition compareDays :: "string \<Rightarrow> string \<Rightarrow> int" where
  "compareDays a b = dayOrderOf a - dayOrderOf b"

text \<open>
  Both comparators are differences of a key, and \<^verbatim>\<open>Array.prototype.sort\<close> is stable:
  sorting with \<^const>\<open>compareWeeks\<close> is \<open>sort_key getWeekNumber\<close>, sorting with
  \<^const>\<open>compareDays\<close> is \<open>sort_key dayOrderOf\<close>. Sorting names without a comparator
  orders them by their code units, which is the lexicographic order of \<^typ>\<open>string\<close>.
\<close>

subsection \<open>Finding the week directory\<close>

text \<open>
  The name that \<^verbatim>\<open>findMostRecentWeekDir\<close> picks in a listing: the last of the week
  directories after the sort.
\<close>

definition mostRecentWeekDirName :: "(string \<times> fsnode) list \<Rightarrow> string option" where
  "mostRecentWeekDirName es =
     (let weekDirs = sort_key getWeekNumber
                       (map fst (filter (\<lambda>e. isDirectory (snd e) \<and> isWeekDirectory (fst e)) es))
      in if length weekDirs > 0 then Some (last weekDirs) else None)"

text \<open>A failing \<^verbatim>\<open>readdir\<close> is caught and gives \<^verbatim>\<open>null\<close>.\<close>

definition findMostRecentWeekDir :: "string \<Rightarrow> fsnode \<Rightarrow> string option" where
  "findMostRecentWeekDir basePath node =
     (case readdir node of
        None \<Rightarrow> None
      | Some es \<Rightarrow> map_option (path_join basePath) (mostRecentWeekDirName es))"

subsection \<open>Scanning\<close>

definition getDayDirectories :: "fsnode \<Rightarrow> string list option" where
  "getDayDirectories weekNode =
     (case readdir weekNode of
        None \<Rightarrow> None
      | Some es \<Rightarrow>
          Some (sort_key dayOrderOf
                  (map fst (filter (\<lambda>e. isDirectory (snd e) \<and> isDayDirectory (fst e)) es))))"

definition getImageFiles :: "fsnode \<Rightarrow> string list option" where
  "getImageFiles dayNode =
     (case readdir dayNode of
        None \<Rightarrow> None
      | Some es \<Rightarrow> Some (sort (filter isImageFile (map fst es))))"

datatype scan_error =
    DirectoryDoesNotExist   \<comment> \<open>\<^verbatim>\<open>Directory does not exist: ...\<close>\<close>
  | NoWeekDirectoryFound    \<comment> \<open>\<^verbatim>\<open>No week directory found. ...\<close>\<close>
  | NoDayDirectories        \<comment> \<open>\<^verbatim>\<open>No day directories found in ...\<close>\<close>
  | FsError                 \<comment> \<open>an error thrown by \<^verbatim>\<open>readdir\<close> or \<^verbatim>\<open>stat\<close>\<close>

text \<open>The first error of a sequence of steps ends it, as the exception does.\<close>

fun collect :: "('e + 'a) list \<Rightarrow> 'e + 'a list" where
  "collect [] = Inr []"
| "collect (Inl e # rs) = Inl e"
| "collect (Inr x # rs) = (case collect rs of Inl e \<Rightarrow> Inl e | Inr xs \<Rightarrow> Inr (x # xs))"

definition scanFile :: "string \<Rightarrow> string \<Rightarrow> string \<Rightarrow> fsnode \<Rightarrow> string
    \<Rightarrow> scan_error + ScreenshotFile" where
  "scanFile weekName dayDirName dayPath dayNode f =
     (case child dayNode f of
        None \<Rightarrow> Inl FsError
      | Some n \<Rightarrow>
          Inr \<lparr>fileName = f, filePath = path_join dayPath f, week = weekName,
               dayDir = dayDirName, fsize = fst (stat n), createdAt = snd (stat n)\<rparr>)"

definition scanDay :: "string \<Rightarrow> string \<Rightarrow> fsnode \<Rightarrow> string
    \<Rightarrow> scan_error + ScreenshotFile list" where
  "scanDay weekName weekPath weekNode dayDirName =
     (let dayPath = path_join weekPath dayDirName
      in case child weekNode dayDirName of
           None \<Rightarrow> Inl FsError
         | Some dayNode \<Rightarrow>
             (case getImageFiles dayNode of
                None \<Rightarrow> Inl FsError
              | Some imageFiles \<Rightarrow>
                  collect (map (scanFile weekName dayDirName dayPath dayNode) imageFiles)))"

text \<open>
  The part of \<^verbatim>\<open>scanScreenshotDirectory\<close> that follows the choice of the week directory:
  the day directories, the loop over them, the final sort.
\<close>

definition scanWeek :: "string \<Rightarrow> fsnode \<Rightarrow> scan_error + ScreenshotFile list" where
  "scanWeek weekPath weekNode =
     (let weekName = basename weekPath
      in case getDayDirectories weekNode of
           None \<Rightarrow> Inl FsError
         | Some dayDirs \<Rightarrow>
             if length dayDirs = 0 then Inl NoDayDirectories
             else (case collect (map (scanDay weekName weekPath weekNode) dayDirs) of
                     Inl e \<Rightarrow> Inl e
                   | Inr screenshots \<Rightarrow>
                       Inr (sort_key (\<lambda>s. dayOrderOf (dayDir s)) (concat screenshots))))"

text \<open>
  \<^verbatim>\<open>scanScreenshotDirectory\<close>: \<open>root\<close> is the node at \<open>inputPath\<close>, \<open>None\<close> when the path
  does not exist. The week directory is the input itself when its base name is a week
  name, and otherwise the subdirectory that \<^verbatim>\<open>findMostRecentWeekDir\<close> picks.
\<close>

definition scanScreenshotDirectory :: "string \<Rightarrow> fsnode option
    \<Rightarrow> scan_error + ScreenshotFile list" where
  "scanScreenshotDirectory inputPath root =
     (case root of
        None \<Rightarrow> Inl DirectoryDoesNotExist
      | Some node \<Rightarrow>
          (let isWeekDir = isWeekDirectory (basename inputPath);
               found = (if isWeekDir then Some (inputPath, node)
                        else (case findMostRecentWeekDir inputPath node of
                                None \<Rightarrow> None
                              | Some weekPath \<Rightarrow>
                                  map_option (Pair weekPath) (child node (basename weekPath))))
           in case found of
                None \<Rightarrow> Inl NoWeekDirectoryFound
              | Some (weekPath, weekNode) \<Rightarrow> scanWeek weekPath weekNode))"

subsection \<open>The trees that the source scans\<close>

text \<open>
  Read off the source: the category directories of a week directory are the entries that
  \<^verbatim>\<open>getDayDirectories\<close> keeps. The period directory is the input itself when its base name
  passes \<^const>\<open>isWeekDirectory\<close>, and otherwise the subdirectory that
  \<^verbatim>\<open>findMostRecentWeekDir\<close> picks; \<^const>\<open>isWeekDirectory\<close> asks for a digit, so a directory
  named by the token alone is never the period directory here. A tree can be scanned when
  its period directory is a directory with at least one category directory.
\<close>

definition categoryDirs :: "fsnode \<Rightarrow> string list" where
  "categoryDirs weekNode =
     (case readdir weekNode of
        None \<Rightarrow> []
      | Some es \<Rightarrow> map fst (filter (\<lambda>e. isDirectory (snd e) \<and> isDayDirectory (fst e)) es))"

definition periodDir :: "string \<Rightarrow> fsnode \<Rightarrow> fsnode option" where
  "periodDir inputPath root =
     (if isWeekDirectory (basename inputPath) then Some root
      else (case readdir root of
              None \<Rightarrow> None
            | Some es \<Rightarrow>
                (case mostRecentWeekDirName es of None \<Rightarrow> None | Some n \<Rightarrow> map_of es n)))"

definition scannable_tree :: "string \<Rightarrow> fsnode \<Rightarrow> bool" where
  "scannable_tree inputPath root =
     (case periodDir inputPath root of
        None \<Rightarrow> False
      | Some weekNode \<Rightarrow> isDirectory weekNode \<and> categoryDirs weekNode \<noteq> [])"

text \<open>
  The order of the specification on two files: by the order of their category first, by
  file name second.
\<close>

definition category_then_name :: "ScreenshotFile \<Rightarrow> ScreenshotFile \<Rightarrow> bool" where
  "category_then_name s t =
     (dayOrderOf (dayDir s) < dayOrderOf (dayDir t)
      \<or> (dayOrderOf (dayDir s) = dayOrderOf (dayDir t) \<and> fileName s \<le> fileName t))"

section \<open>Aggregation of a batch (DataProcessor.processResults)\<close>

text \<open>
  \<^verbatim>\<open>sortDailyData\<close> looks the label up as it is (\<^verbatim>\<open>dayOrder[a.day] || 999\<close>) and sorts
  stably by the result.
\<close>

definition dailyOrderOf :: "string \<Rightarrow> int" where
  "dailyOrderOf d = (case dayOrder d of Some n \<Rightarrow> n | None \<Rightarrow> 999)"

definition sortDailyData :: "DayData list \<Rightarrow> DayData list" where
  "sortDailyData ds = sort_key (\<lambda>d. dailyOrderOf (day d)) ds"

text \<open>
  \<open>tz\<close> gives the offsets of the time zone of the process and \<open>now\<close> the text of
  \<^verbatim>\<open>new Date().toISOString()\<close> at the call. The week name is that of the first successful
  result, and \<^verbatim>\<open>'week1'\<close> when that name is empty (\<^verbatim>\<open>|| 'week1'\<close>).
\<close>

definition processResults :: "zone \<Rightarrow> string \<Rightarrow> ProcessingResult list
    \<Rightarrow> process_error + ExtractedData" where
  "processResults tz now results =
     (let successfulResults = filter success results
      in if length successfulResults = 0 then Inl NoSuccessfulResults
         else
           (let w = week (sfile (hd successfulResults));
                weekName = (if w = [] then ''week1'' else w);
                wNumber = extractWeekNumber weekName;
                total = length successfulResults
            in case calculateWeekStartDate tz weekName of
                 Inl e \<Rightarrow> Inl e
               | Inr wDate \<Rightarrow>
                   (let weekData0 = \<lparr>weekNumber = wNumber, weekDate = wDate,
                                     dailyData = [], weeklyData = []\<rparr>;
                        weekData1 = foldl addResultToWeekData weekData0 successfulResults;
                        weekData2 = weekData1\<lparr>dailyData := sortDailyData (dailyData weekData1)\<rparr>
                    in Inr \<lparr>weeks = [weekData2],
                            metadata = \<lparr>totalWeeks = 1, totalScreenshots = total,
                                        extractedAt = now\<rparr>\<rparr>)))"

text \<open>The week name that \<^verbatim>\<open>processResults\<close> takes from a batch with a success.\<close>

definition weekName_of :: "ProcessingResult list \<Rightarrow> string" where
  "weekName_of rs =
     (let w = week (sfile (hd (filter success rs))) in if w = [] then ''week1'' else w)"

section \<open>The calendar\<close>

text \<open>
  Dates as year, month (1 to 12) and day of the month, with the step to the next and to
  the previous day of the Gregorian calendar; a date plus or minus a number of days;
  the text \<^verbatim>\<open>YYYY-MM-DD\<close> of a date.
\<close>

type_synonym date = "int \<times> int \<times> int"

definition leap_year :: "int \<Rightarrow> bool" where
  "leap_year y = (y mod 4 = 0 \<and> (y mod 100 \<noteq> 0 \<or> y mod 400 = 0))"

definition days_in_month :: "int \<Rightarrow> int \<Rightarrow> int" where
  "days_in_month y m =
     (if m = 2 then (if leap_year y then 29 else 28)
      else if m = 4 \<or> m = 6 \<or> m = 9 \<or> m = 11 then 30 else 31)"

fun next_day :: "date \<Rightarrow> date" where
  "next_day (y, m, d) =
     (if d < days_in_month y m then (y, m, d + 1)
      else if m < 12 then (y, m + 1, 1) else (y + 1, 1, 1))"

fun prev_day :: "date \<Rightarrow> date" where
  "prev_day (y, m, d) =
     (if 1 < d then (y, m, d - 1)
      else if 1 < m then (y, m - 1, days_in_month y (m - 1)) else (y - 1, 12, 31))"

definition plus_days :: "date \<Rightarrow> int \<Rightarrow> date" where
  "plus_days dt k = (if 0 \<le> k then (next_day ^^ nat k) dt else (prev_day ^^ nat (- k)) dt)"

fun format_date :: "date \<Rightarrow> string" where
  "format_date (y, m, d) = pad 4 y @ ''-'' @ pad 2 m @ ''-'' @ pad 2 d"

definition epoch :: date where
  "epoch = (2024, 1, 1)"

text \<open>The calendar date (in UTC) of a time value.\<close>

definition ymd :: "int \<Rightarrow> date" where
  "ymd t = (YearFromTime t, MonthFromTime t + 1, DateFromTime t)"

section \<open>Workbook export (ExportUtils.exportToXLSX)\<close>

text \<open>
  A workbook is the ordered list of its sheets; a sheet is its name and its rows; a row is
  the list of the object's keys with their cells, in the order the source writes them.
  The calls into the spreadsheet library are taken to succeed; the outcome of writing the
  file is the parameter \<open>wr\<close>: \<open>None\<close> when the write returns, \<open>Some msg\<close> when it throws.
\<close>

datatype cell = Num int | Str string

type_synonym row = "(string \<times> cell) list"
type_synonym sheet = "string \<times> row list"
type_synonym workbook = "sheet list"

datatype export_error =
    NoDataToExport      \<comment> \<open>'No data to export - both daily and weekly data are empty'\<close>
  | WriteFailed string  \<comment> \<open>'Failed to write XLSX file: ...'\<close>

definition entry_row :: "RankingEntry \<Rightarrow> row" where
  "entry_row e =
     [(''Rank'', Num (rank e)), (''CommanderName'', Str (commanderName e)), (''Points'', Num (points e))]"

definition book_append_sheet :: "workbook \<Rightarrow> row list \<Rightarrow> string \<Rightarrow> workbook" where
  "book_append_sheet wb ws name = wb @ [(name, ws)]"

definition summaryData :: "WeekData \<Rightarrow> row list" where
  "summaryData w =
     [[(''Metric'', Str ''Week Number''), (''Value'', Num (weekNumber w))],
      [(''Metric'', Str ''Week Date''), (''Value'', Str (weekDate w))],
      [(''Metric'', Str ''Days Tracked''), (''Value'', Num (int (length (dailyData w))))],
      [(''Metric'', Str ''Total Daily Entries''),
       (''Value'', Num (foldl (\<lambda>sum d. sum + int (length (entries d))) 0 (dailyData w)))],
      [(''Metric'', Str ''Weekly Entries''), (''Value'', Num (int (length (weeklyData w))))]]"

definition add_day_sheets :: "workbook \<Rightarrow> DayData list \<Rightarrow> workbook" where
  "add_day_sheets wb ds =
     foldl (\<lambda>b d. book_append_sheet b (map entry_row (entries d)) (day d)) wb ds"

definition exportToXLSX :: "string option \<Rightarrow> WeekData \<Rightarrow> export_error + workbook" where
  "exportToXLSX wr w =
     (let wb1 = (if length (dailyData w) > 0 then add_day_sheets [] (dailyData w) else [])
      in if length (weeklyData w) > 0
         then (let wb2 = book_append_sheet wb1 (map entry_row (weeklyData w)) ''Weekly'';
                   wb3 = book_append_sheet wb2 (summaryData w) ''Summary''
               in case wr of None \<Rightarrow> Inr wb3 | Some msg \<Rightarrow> Inl (WriteFailed msg))
         else Inl NoDataToExport)"

section \<open>The aggregation on a store\<close>

text \<open>
  The functions above take and return values, so they cannot say what the source does to
  the objects it is given. Here the objects live in a store: a list of objects, the
  address of an object being its index, and a new object taking the next free index.
  Arrays hold the addresses of their elements, and an object refers to an array or to
  another object by its address, as a JavaScript reference does.
\<close>

type_synonym addr = nat

datatype obj =
    ArrayObj "addr list"
  | EntryObj RankingEntry
  | FileObj ScreenshotFile
  | ResultObj addr addr bool "string option" nat
      \<comment> \<open>\<^verbatim>\<open>file\<close>, \<^verbatim>\<open>extracted\<close>, \<^verbatim>\<open>success\<close>, \<^verbatim>\<open>error\<close>, \<^verbatim>\<open>processingTime\<close>\<close>
  | DayObj string addr
      \<comment> \<open>\<^verbatim>\<open>day\<close>, \<^verbatim>\<open>entries\<close>\<close>
  | WeekObj int string addr addr
      \<comment> \<open>\<^verbatim>\<open>weekNumber\<close>, \<^verbatim>\<open>weekDate\<close>, \<^verbatim>\<open>dailyData\<close>, \<^verbatim>\<open>weeklyData\<close>\<close>

type_synonym heap = "obj list"

definition lookup :: "heap \<Rightarrow> addr \<Rightarrow> obj option" where
  "lookup h a = (if a < length h then Some (h ! a) else None)"

definition alloc :: "heap \<Rightarrow> obj \<Rightarrow> addr \<times> heap" where
  "alloc h ob = (length h, h @ [ob])"

text \<open>
  The elements of an array, and the assignment of new elements to an array in place
  (what \<^verbatim>\<open>push\<close> and \<^verbatim>\<open>sort\<close> do). The types of the source exclude a read or a write
  of an array at the address of another kind of object; such a read gives nothing here
  and such a write leaves the store as it is.
\<close>

definition elems :: "heap \<Rightarrow> addr \<Rightarrow> addr list" where
  "elems h a = (case lookup h a of Some (ArrayObj xs) \<Rightarrow> xs | _ \<Rightarrow> [])"

definition set_elems :: "heap \<Rightarrow> addr \<Rightarrow> addr list \<Rightarrow> heap" where
  "set_elems h a xs = (case lookup h a of Some (ArrayObj _) \<Rightarrow> h[a := ArrayObj xs] | _ \<Rightarrow> h)"

definition entry_at :: "heap \<Rightarrow> addr \<Rightarrow> RankingEntry" where
  "entry_at h a =
     (case lookup h a of Some (EntryObj e) \<Rightarrow> e
      | _ \<Rightarrow> \<lparr>rank = 0, commanderName = [], points = 0\<rparr>)"

definition rank_at :: "heap \<Rightarrow> addr \<Rightarrow> int" where
  "rank_at h a = rank (entry_at h a)"

definition day_at :: "heap \<Rightarrow> addr \<Rightarrow> string" where
  "day_at h a = (case lookup h a of Some (DayObj nm e) \<Rightarrow> nm | _ \<Rightarrow> [])"

definition entries_at :: "heap \<Rightarrow> addr \<Rightarrow> addr option" where
  "entries_at h a = (case lookup h a of Some (DayObj nm e) \<Rightarrow> Some e | _ \<Rightarrow> None)"

definition success_at :: "heap \<Rightarrow> addr \<Rightarrow> bool" where
  "success_at h a = (case lookup h a of Some (ResultObj f ex s er t) \<Rightarrow> s | _ \<Rightarrow> False)"

definition extracted_at :: "heap \<Rightarrow> addr \<Rightarrow> addr list" where
  "extracted_at h a = (case lookup h a of Some (ResultObj f ex s er t) \<Rightarrow> elems h ex | _ \<Rightarrow> [])"

definition file_at :: "heap \<Rightarrow> addr \<Rightarrow> ScreenshotFile option" where
  "file_at h a =
     (case lookup h a of
        Some (ResultObj f ex s er t) \<Rightarrow>
          (case lookup h f of Some (FileObj sf) \<Rightarrow> Some sf | _ \<Rightarrow> None)
      | _ \<Rightarrow> None)"

definition dayDir_at :: "heap \<Rightarrow> addr \<Rightarrow> string" where
  "dayDir_at h a = (case file_at h a of Some sf \<Rightarrow> dayDir sf | None \<Rightarrow> [])"

definition week_at :: "heap \<Rightarrow> addr \<Rightarrow> string" where
  "week_at h a = (case file_at h a of Some sf \<Rightarrow> week sf | None \<Rightarrow> [])"

text \<open>
  \<^verbatim>\<open>addResultToWeekData\<close> on the store: \<open>wa\<close> is the address of the week object and \<open>r\<close>
  that of the result. The bucket found or created is \<open>d\<close>; \<^verbatim>\<open>filter\<close> makes a new array.
\<close>

definition find_or_create_day :: "heap \<Rightarrow> addr \<Rightarrow> string \<Rightarrow> addr \<times> heap" where
  "find_or_create_day h dd dayName =
     (case find (\<lambda>d. day_at h d = dayName) (elems h dd) of
        Some d \<Rightarrow> (d, h)
      | None \<Rightarrow>
          (let (e, h1) = alloc h (ArrayObj []);
               (d, h2) = alloc h1 (DayObj dayName e);
               h3 = set_elems h2 dd (elems h2 dd @ [d])
           in (d, h3)))"

definition merge_entries_h :: "heap \<Rightarrow> addr \<Rightarrow> addr list \<Rightarrow> heap" where
  "merge_entries_h h d extr =
     (case entries_at h d of
        None \<Rightarrow> h
      | Some e \<Rightarrow>
          (let existingRanks = set (map (rank_at h) (elems h e));
               (ne, h1) = alloc h (ArrayObj (filter (\<lambda>x. rank_at h x \<notin> existingRanks) extr));
               h2 = set_elems h1 e (elems h1 e @ elems h1 ne);
               h3 = set_elems h2 e (sort_key (rank_at h2) (elems h2 e))
           in h3))"

definition addResultToWeekData_h :: "heap \<Rightarrow> addr \<Rightarrow> addr \<Rightarrow> heap" where
  "addResultToWeekData_h h wa r =
     (case lookup h wa of
        Some (WeekObj num dt dd wd) \<Rightarrow>
          (let dayName = normalizeDayName (dayDir_at h r);
               extr = extracted_at h r
           in if dayName = WEEKLY
              then (let h1 = set_elems h wd (elems h wd @ extr);
                        h2 = set_elems h1 wd (sort_key (rank_at h1) (elems h1 wd))
                    in h2)
              else (let (d, h1) = find_or_create_day h dd dayName
                    in merge_entries_h h1 d extr))
      | _ \<Rightarrow> h)"

text \<open>
  \<^verbatim>\<open>processResults\<close> on the store: \<open>ra\<close> is the address of the array of results. It
  returns the store after the call and, as the result, the address of the array
  \<^verbatim>\<open>weeks\<close> with the metadata. \<^verbatim>\<open>sortDailyData\<close> sorts the array \<^verbatim>\<open>dailyData\<close> in place and
  returns it.
\<close>

definition processResults_h :: "zone \<Rightarrow> string \<Rightarrow> heap \<Rightarrow> addr
    \<Rightarrow> heap \<times> (process_error + addr \<times> Metadata)" where
  "processResults_h tz now h ra =
     (let (sa, h1) = alloc h (ArrayObj (filter (success_at h) (elems h ra)));
          successfulResults = elems h1 sa
      in if length successfulResults = 0 then (h1, Inl NoSuccessfulResults)
         else
           (let w = week_at h1 (hd successfulResults);
                weekName = (if w = [] then ''week1'' else w);
                wNumber = extractWeekNumber weekName;
                total = length successfulResults
            in case calculateWeekStartDate tz weekName of
                 Inl e \<Rightarrow> (h1, Inl e)
               | Inr wDate \<Rightarrow>
                   (let (dd, h2) = alloc h1 (ArrayObj []);
                        (wd, h3) = alloc h2 (ArrayObj []);
                        (wa, h4) = alloc h3 (WeekObj wNumber wDate dd wd);
                        h5 = foldl (\<lambda>hp r. addResultToWeekData_h hp wa r) h4 successfulResults;
                        h6 = set_elems h5 dd
                               (sort_key (\<lambda>d. dailyOrderOf (day_at h5 d)) (elems h5 dd));
                        (wsa, h7) = alloc h6 (ArrayObj [wa])
                    in (h7, Inr (wsa, \<lparr>totalWeeks = 1, totalScreenshots = total,
                                         extractedAt = now\<rparr>)))))"

text \<open>Reading a week and its buckets back from the store, and a batch into the store.\<close>

definition read_day :: "heap \<Rightarrow> addr \<Rightarrow> DayData" where
  "read_day h d =
     \<lparr>day = day_at h d,
      entries = (case entries_at h d of
                   Some e \<Rightarrow> map (entry_at h) (elems h e) | None \<Rightarrow> [])\<rparr>"

definition read_week :: "heap \<Rightarrow> addr \<Rightarrow> WeekData option" where
  "read_week h wa =
     (case lookup h wa of
        Some (WeekObj num dt dd wd) \<Rightarrow>
          Some \<lparr>weekNumber = num, weekDate = dt, dailyData = map (read_day h) (elems h dd),
                weeklyData = map (entry_at h) (elems h wd)\<rparr>
      | _ \<Rightarrow> None)"

definition store_entries :: "heap \<Rightarrow> RankingEntry list \<Rightarrow> addr list \<times> heap" where
  "store_entries h es = (map (\<lambda>i. length h + i) [0..<length es], h @ map EntryObj es)"

definition store_result :: "heap \<Rightarrow> ProcessingResult \<Rightarrow> addr \<times> heap" where
  "store_result h r =
     (let (f, h1) = alloc h (FileObj (sfile r));
          (es, h2) = store_entries h1 (extracted r);
          (ex, h3) = alloc h2 (ArrayObj es)
      in alloc h3 (ResultObj f ex (success r) (error r) (processingTime r)))"

fun store_results :: "heap \<Rightarrow> ProcessingResult list \<Rightarrow> addr list \<times> heap" where
  "store_results h [] = ([], h)"
| "store_results h (r # rs) =
     (let (a, h1) = store_result h r; (as, h2) = store_results h1 rs in (a # as, h2))"

definition store_batch :: "ProcessingResult list \<Rightarrow> addr \<times> heap" where
  "store_batch rs = (let (as, h) = store_results [] rs in alloc h (ArrayObj as))"

text \<open>
  The containers that the week at \<open>wa\<close> holds: the week object, its two arrays, its bucket
  objects and their arrays of records.
\<close>

definition containers :: "heap \<Rightarrow> addr \<Rightarrow> addr list" where
  "containers h wa =
     (case lookup h wa of
        Some (WeekObj num dt dd wd) \<Rightarrow>
          wa # dd # wd # elems h dd
            @ concat (map (\<lambda>d. case entries_at h d of Some e \<Rightarrow> [e] | None \<Rightarrow> []) (elems h dd))
      | _ \<Rightarrow> [])"

text \<open>
  The invariant of the loop, for a store that held \<open>n\<close> objects at the call: the week
  object, its two arrays, its bucket objects and their arrays of records were all made
  after the call began, and no bucket's array of records is the array of buckets.
\<close>

definition days_ok :: "nat \<Rightarrow> heap \<Rightarrow> addr \<Rightarrow> addr list \<Rightarrow> bool" where
  "days_ok n h dd ds =
     list_all (\<lambda>d. n \<le> d \<and> (case lookup h d of
                                  Some (DayObj nm e) \<Rightarrow> n \<le> e \<and> e \<noteq> dd
                                | _ \<Rightarrow> False)) ds"

definition week_inv :: "nat \<Rightarrow> heap \<Rightarrow> addr \<Rightarrow> bool" where
  "week_inv n h wa =
     (case lookup h wa of
        Some (WeekObj num dt dd wd) \<Rightarrow>
          n \<le> wa \<and> n \<le> dd \<and> n \<le> wd \<and> dd \<noteq> wd
          \<and> (case lookup h dd of Some (ArrayObj ds) \<Rightarrow> days_ok n h dd ds | _ \<Rightarrow> False)
      | _ \<Rightarrow> False)"

text \<open>With it, the store \<open>h0\<close> of the call is still the beginning of the store \<open>h\<close>.\<close>

definition frame_inv :: "heap \<Rightarrow> heap \<Rightarrow> addr \<Rightarrow> bool" where
  "frame_inv h0 h wa = (week_inv (length h0) h wa \<and> take (length h0) h = h0)"

text \<open>
  Reading a result back from the store: its file descriptor, its flag, its error, its
  time and its records in their order. Nothing is read where the store does not hold a
  result whose file, array of records and records are all there.
\<close>

definition is_entry :: "heap \<Rightarrow> addr \<Rightarrow> bool" where
  "is_entry h a = (case lookup h a of Some (EntryObj e) \<Rightarrow> True | _ \<Rightarrow> False)"

definition read_result :: "heap \<Rightarrow> addr \<Rightarrow> ProcessingResult option" where
  "read_result h r =
     (case lookup h r of
        Some (ResultObj f ex s er t) \<Rightarrow>
          (case lookup h f of
             Some (FileObj sf) \<Rightarrow>
               (case lookup h ex of
                  Some (ArrayObj es) \<Rightarrow>
                    if list_all (is_entry h) es
                    then Some \<lparr>sfile = sf, extracted = map (entry_at h) es, success = s,
                               error = er, processingTime = t\<rparr>
                    else None
                | _ \<Rightarrow> None)
           | _ \<Rightarrow> None)
      | _ \<Rightarrow> None)"

section \<open>Example inputs\<close>

text \<open>Concrete records, files and extraction results for the worked examples.\<close>

definition entry :: "int \<Rightarrow> string \<Rightarrow> int \<Rightarrow> RankingEntry" where
  "entry r n p = \<lparr>rank = r, commanderName = n, points = p\<rparr>"

definition shot :: "string \<Rightarrow> string \<Rightarrow> string \<Rightarrow> ScreenshotFile" where
  "shot w d f =
     \<lparr>fileName = f, filePath = w @ ''/'' @ d @ ''/'' @ f, week = w, dayDir = d,
      fsize = 1024, createdAt = 0\<rparr>"

definition ok_result :: "string \<Rightarrow> string \<Rightarrow> string \<Rightarrow> RankingEntry list \<Rightarrow> ProcessingResult" where
  "ok_result w d f es =
     \<lparr>sfile = shot w d f, extracted = es, success = True, error = None, processingTime = 5\<rparr>"

definition failed_result :: "string \<Rightarrow> string \<Rightarrow> string \<Rightarrow> ProcessingResult" where
  "failed_result w d f =
     \<lparr>sfile = shot w d f, extracted = [], success = False, error = Some ''timeout'',
      processingTime = 5\<rparr>"

definition empty_week :: WeekData where
  "empty_week = \<lparr>weekNumber = 1, weekDate = ''2024-01-01'', dailyData = [], weeklyData = []\<rparr>"

definition monday_first :: ProcessingResult where
  "monday_first = ok_result ''week1'' ''Monday'' ''a.png''
     [entry 1 ''Ann'' 100, entry 2 ''Bob'' 90, entry 3 ''Cid'' 80]"

definition monday_second :: ProcessingResult where
  "monday_second = ok_result ''week1'' ''Monday'' ''b.png''
     [entry 2 ''Bea'' 95, entry 3 ''Cal'' 85, entry 4 ''Dan'' 70]"

definition weekly_first :: ProcessingResult where
  "weekly_first = ok_result ''week1'' ''Weekly'' ''a.png'' [entry 1 ''Ann'' 500]"

definition weekly_second :: ProcessingResult where
  "weekly_second = ok_result ''week1'' ''Weekly'' ''b.png'' [entry 1 ''Zed'' 400]"

definition two_bad_labels :: WeekData where
  "two_bad_labels =
     \<lparr>weekNumber = 1, weekDate = ''2024-01-01'',
      dailyData = [\<lparr>day = ''Foo'', entries = [entry 1 ''Ann'' 100]\<rparr>,
                   \<lparr>day = ''Bar'', entries = [entry 1 ''Bob'' 90]\<rparr>],
      weeklyData = []\<rparr>"

definition all_wrong :: WeekData where
  "all_wrong =
     \<lparr>weekNumber = 0, weekDate = '''',
      dailyData = [\<lparr>day = ''Foo'', entries = []\<rparr>,
                   \<lparr>day = ''Monday'', entries = [entry 1 ''Ann'' 100, entry 1 ''Bob'' 90]\<rparr>],
      weeklyData = []\<rparr>"

definition good_week :: WeekData where
  "good_week =
     \<lparr>weekNumber = 1, weekDate = ''2024-01-01'',
      dailyData = [\<lparr>day = ''Monday'', entries = [entry 1 ''Ann'' 100, entry 2 ''Bob'' 90]\<rparr>],
      weeklyData = []\<rparr>"

definition png :: fsnode where
  "png = File 2048 1700000000000"

definition two_monday_dirs :: fsnode where
  "two_monday_dirs =
     Dir 4096 0
       [(''Monday'', Dir 4096 0 [(''b.png'', png)]),
        (''monday'', Dir 4096 0 [(''a.png'', png)])]"

text \<open>Directories list their entries in byte order, as \<^verbatim>\<open>readdir\<close> returns them.\<close>

definition sample_week :: fsnode where
  "sample_week =
     Dir 4096 0
       [(''Monday'', Dir 4096 0 [(''c.webp'', png), (''z.png'', png)]),
        (''Weekly'', Dir 4096 0 [(''final.png'', png)]),
        (''notes'', Dir 4096 0 [(''x.png'', png)]),
        (''tuesday'', Dir 4096 0 [(''a.jpg'', png), (''b.PNG'', png), (''readme.txt'', png)])]"

definition sample_root :: fsnode where
  "sample_root =
     Dir 4096 0
       [(''Week010'', sample_week), (''week'', sample_week), (''week10'', sample_week),
        (''week2'', sample_week), (''week3.txt'', png)]"

text \<open>Two week directories whose numbers are one apart, above \<open>2^53\<close>.\<close>

definition rounding_root :: fsnode where
  "rounding_root =
     Dir 4096 0
       [(''week09007199254740993'', sample_week), (''week9007199254740992'', sample_week)]"

text \<open>
  The offsets of the zone \<^verbatim>\<open>America/New_York\<close> around the year 2024: five hours behind
  UTC, and four hours behind from 2024-03-10 07:00 UTC to 2024-11-03 06:00 UTC. On local
  times the change is at 03:00 and at 02:00 of these days: a local time that the clock
  skips or shows twice takes the offset before the change.
\<close>

definition New_York_2024 :: zone where
  "New_York_2024 t isUTC =
     (if isUTC
      then (if 1710054000000 \<le> t \<and> t < 1730613600000 then - 14400000 else - 18000000)
      else (if 1710039600000 \<le> t \<and> t < 1730599200000 then - 14400000 else - 18000000))"

definition clock :: string where
  "clock = ''2026-11-03T10:00:00.000Z''"

definition far_future_batch :: "ProcessingResult list" where
  "far_future_batch = [ok_result ''week14282898'' ''Monday'' ''a.png'' [entry 1 ''Ann'' 100]]"

definition unnamed_week_batch :: "ProcessingResult list" where
  "unnamed_week_batch = [ok_result '''' ''Monday'' ''a.png'' [entry 1 ''Ann'' 100]]"

definition week12_batch :: "ProcessingResult list" where
  "week12_batch =
     [failed_result ''week3'' ''Monday'' ''x.png'',
      ok_result ''Week12'' ''Monday'' ''a.png'' [entry 1 ''Ann'' 100],
      ok_result ''week7'' ''Weekly'' ''b.png'' [entry 1 ''Zed'' 400]]"


text \<open>A batch in the store: two Monday results, a summary result and a failure.\<close>

definition stored_batch :: "addr \<times> heap" where
  "stored_batch = store_batch
     [monday_first, weekly_first, monday_second, failed_result ''week1'' ''Monday'' ''x.png'']"

text \<open>The store after the aggregation of that batch: nine objects more.\<close>

definition stored_after :: heap where
  "stored_after = snd stored_batch @
     [ArrayObj [5, 9, 15], ArrayObj [25], ArrayObj [7], WeekObj 1 ''2024-01-01'' 21 22,
      ArrayObj [1, 2, 3, 13], DayObj ''Monday'' 24, ArrayObj [1, 2, 3], ArrayObj [13],
      ArrayObj [23]]"

section \<open>Evaluation rules\<close>

lemmas DayOfWeek_defs =
  MONDAY_def TUESDAY_def WEDNESDAY_def THURSDAY_def FRIDAY_def SATURDAY_def WEEKLY_def
  DayOfWeek_values_def

lemmas string_defs =
  toLowerCase_def toUpperCase_def toLowerCase_char_def toUpperCase_char_def charAt0_def
  slice1_def isDigit_def

lemmas example_defs =
  entry_def shot_def ok_result_def failed_result_def empty_week_def monday_first_def
  monday_second_def weekly_first_def weekly_second_def two_bad_labels_def all_wrong_def
  good_week_def png_def two_monday_dirs_def sample_week_def sample_root_def
  rounding_root_def clock_def far_future_batch_def unnamed_week_batch_def
  week12_batch_def

lemmas fs_defs =
  child_def path_join_def basename_def extname_def isWeekDirectory_def isWeekDirectory_alt_def
  normalizeDay_def isDayDirectory_def imageExtensions_def isImageFile_def getWeekNumber_def
  compareWeeks_def dayOrder_def dayOrderOf_def compareDays_def mostRecentWeekDirName_def
  findMostRecentWeekDir_def getDayDirectories_def getImageFiles_def scanFile_def scanDay_def
  scanWeek_def   scanScreenshotDirectory_def digit_value_def decimal_value_def parseInt10_def
  extractWeekNumber_def

lemmas date_defs =
  msPerDay_def Day_def TimeWithinDay_def DaysInYear_def DayFromYear_def TimeFromYear_def
  YearFromDay_def YearFromTime_def InLeapYear_def DayWithinYear_def MonthFromTime_def
  DateFromTime_def HourFromTime_def MinFromTime_def SecFromTime_def msFromTime_def
  daysBeforeMonth_def MakeDay_def MakeDate_def TimeClip_def LocalTime_def UTC_def
  Date_2024_01_01_def getDate_def setDate_def digit_char_def isoYear_def toISOString_def
  split_T_0_def calculateWeekStartDate_def

lemmas process_defs =
  dailyOrderOf_def sortDailyData_def processResults_def weekName_of_def

text \<open>Below \<open>2^53\<close> a number is its own double.\<close>

lemma excess_small: "n < 9007199254740992 \<Longrightarrow> excess n = 0"
  by (simp add: excess.simps)

lemma toNumber_small [simp]: "n < 9007199254740992 \<Longrightarrow> toNumber n = n"
  by (simp add: toNumber_def excess_small)

lemma toNumber_nonneg: "0 \<le> n \<Longrightarrow> 0 \<le> toNumber n"
  by (simp add: toNumber_def Let_def pos_imp_zdiv_nonneg_iff)

lemma toNumber_above:
  "toNumber 9007199254740992 = 9007199254740992" "toNumber 9007199254740993 = 9007199254740992"
  by code_simp+

section \<open>Properties of the workbook export\<close>

lemma add_day_sheets_names:
  "map fst (add_day_sheets wb ds) = map fst wb @ map day ds"
  unfolding add_day_sheets_def
  by (induction ds arbitrary: wb) (simp_all add: book_append_sheet_def)

lemma exportToXLSX_fails_iff:
  "exportToXLSX wr w = Inl NoDataToExport \<longleftrightarrow> weeklyData w = []"
  by (simp add: exportToXLSX_def Let_def split: option.splits)

lemma exportToXLSX_weekly_only:
  "dailyData w = [] \<Longrightarrow> weeklyData w \<noteq> [] \<Longrightarrow>
   \<exists>wb. exportToXLSX None w = Inr wb \<and> map fst wb = [''Weekly'', ''Summary'']"
  by (simp add: exportToXLSX_def Let_def book_append_sheet_def)

lemma exportToXLSX_sheet_names:
  "exportToXLSX None w = Inr wb \<Longrightarrow>
   map fst wb = map day (dailyData w) @ [''Weekly'', ''Summary'']"
  by (auto simp: exportToXLSX_def Let_def book_append_sheet_def add_day_sheets_names
           split: if_splits)

text \<open>
  C1. The claim says that the workbook export fails for want of data only when both the
  daily buckets and the summary bucket are empty, so that a period with daily buckets and
  an empty summary bucket is exported. The source throws whenever the summary bucket is
  empty: a period holding one Monday record and no weekly record is refused with the
  message that both are empty.
\<close>

theorem C1_exportToXLSX_daily_without_weekly_fails:
  "exportToXLSX wr
     \<lparr>weekNumber = 1, weekDate = ''2024-01-01'',
      dailyData = [\<lparr>day = ''Monday'',
                    entries = [\<lparr>rank = 1, commanderName = ''A'', points = 100\<rparr>]\<rparr>],
      weeklyData = []\<rparr>
   = Inl NoDataToExport"
  by (simp add: exportToXLSX_def)

section \<open>Folding results into the buckets\<close>

subsection \<open>One step\<close>

lemma day_merge_entries [simp]: "day (merge_entries new d) = day d"
  by (simp add: merge_entries_def Let_def)

lemma entries_merge_entries: "entries (merge_entries new d) = merge_ranked (entries d) new"
  by (simp add: merge_entries_def merge_ranked_def Let_def)

lemma find_day_update_first_same:
  "find (\<lambda>x. day x = d) (update_first (\<lambda>x. day x = d) (merge_entries new) xs)
   = map_option (merge_entries new) (find (\<lambda>x. day x = d) xs)"
  by (induction xs) auto

lemma find_day_update_first_other:
  "d' \<noteq> d \<Longrightarrow>
   find (\<lambda>x. day x = d') (update_first (\<lambda>x. day x = d) (merge_entries new) xs)
   = find (\<lambda>x. day x = d') xs"
  by (induction xs) auto

lemma find_append:
  "find P (xs @ ys) = (case find P xs of Some x \<Rightarrow> Some x | None \<Rightarrow> find P ys)"
  by (induction xs) auto

lemma merge_ranked_Nil [simp]: "merge_ranked [] new = sort_key rank new"
  by (simp add: merge_ranked_def)

lemma bucket_addResult_same:
  assumes "normalizeDayName (dayDir (sfile r)) = d" and "d \<noteq> WEEKLY"
  shows "bucket (addResultToWeekData w r) d = merge_ranked (bucket w d) (extracted r)"
  using assms
  by (auto simp: addResultToWeekData_def bucket_def Let_def find_day_update_first_same
        find_append entries_merge_entries split: option.splits)

lemma bucket_addResult_other:
  assumes "normalizeDayName (dayDir (sfile r)) \<noteq> d"
  shows "bucket (addResultToWeekData w r) d = bucket w d"
  using assms
  by (auto simp: addResultToWeekData_def bucket_def Let_def find_day_update_first_other
        find_append split: option.splits)

lemma weeklyData_addResult:
  "weeklyData (addResultToWeekData w r) =
     (if normalizeDayName (dayDir (sfile r)) = WEEKLY
      then sort_key rank (weeklyData w @ extracted r) else weeklyData w)"
  by (simp add: addResultToWeekData_def Let_def)

lemma dailyData_addResult_weekly:
  "normalizeDayName (dayDir (sfile r)) = WEEKLY \<Longrightarrow>
   dailyData (addResultToWeekData w r) = dailyData w"
  by (simp add: addResultToWeekData_def Let_def)

lemma weekNumber_addResult [simp]: "weekNumber (addResultToWeekData w r) = weekNumber w"
  by (simp add: addResultToWeekData_def Let_def)

lemma weekDate_addResult [simp]: "weekDate (addResultToWeekData w r) = weekDate w"
  by (simp add: addResultToWeekData_def Let_def)

subsection \<open>The merge of one bucket\<close>

lemma filter_rank_merge_ranked:
  "filter (\<lambda>e. rank e = k) (merge_ranked b xs) =
     (if k \<in> rank ` set b then filter (\<lambda>e. rank e = k) b else filter (\<lambda>e. rank e = k) xs)"
proof (cases "k \<in> rank ` set b")
  case True
  then have "filter (\<lambda>e. rank e = k) (filter (\<lambda>e. rank e \<notin> rank ` set b) xs) = []"
    by (auto simp: filter_empty_conv)
  with True show ?thesis
    by (simp add: merge_ranked_def sort_key_stable)
next
  case False
  then have "filter (\<lambda>e. rank e = k) b = []"
    by (auto simp: filter_empty_conv)
  moreover from False
  have "filter (\<lambda>e. rank e = k) (filter (\<lambda>e. rank e \<notin> rank ` set b) xs)
        = filter (\<lambda>e. rank e = k) xs"
    by (auto intro: filter_cong)
  ultimately show ?thesis
    using False by (simp add: merge_ranked_def sort_key_stable)
qed

lemma ranks_merge_ranked:
  "rank ` set (merge_ranked b xs) = rank ` set b \<union> rank ` set xs"
  by (auto simp: merge_ranked_def)

lemma sorted_merge_ranked: "sorted (map rank (merge_ranked b xs))"
  by (simp add: merge_ranked_def)

subsection \<open>A sequence of results\<close>

lemma bucket_foldl:
  assumes "d \<noteq> WEEKLY"
  shows "bucket (foldl addResultToWeekData w rs) d =
         foldl merge_ranked (bucket w d)
           (map extracted (filter (\<lambda>r. normalizeDayName (dayDir (sfile r)) = d) rs))"
  using assms
  by (induction rs arbitrary: w) (simp_all add: bucket_addResult_same bucket_addResult_other)

lemma filter_rank_foldl_merge:
  "filter (\<lambda>e. rank e = k) (foldl merge_ranked b xss) =
     (if k \<in> rank ` set b then filter (\<lambda>e. rank e = k) b
      else case find (\<lambda>xs. k \<in> rank ` set xs) xss of
             None \<Rightarrow> [] | Some xs \<Rightarrow> filter (\<lambda>e. rank e = k) xs)"
proof (induction xss arbitrary: b)
  case Nil
  show ?case by (auto simp: filter_empty_conv)
next
  case (Cons xs xss)
  show ?case
    by (simp add: Cons.IH filter_rank_merge_ranked ranks_merge_ranked)
qed

lemma sorted_foldl_merge:
  "xss \<noteq> [] \<Longrightarrow> sorted (map rank (foldl merge_ranked b xss))"
proof (induction xss arbitrary: b rule: rev_induct)
  case Nil
  then show ?case by simp
next
  case (snoc xs xss)
  show ?case by (simp add: sorted_merge_ranked)
qed

lemma find_map_extracted:
  "find P (map extracted rs) = map_option extracted (find (\<lambda>r. P (extracted r)) rs)"
  by (induction rs) auto

lemma sort_key_sort_key_append:
  "sort_key f (sort_key f xs @ ys) = sort_key f (xs @ ys)"
proof (rule properties_for_sort_key)
  show "mset (sort_key f (xs @ ys)) = mset (sort_key f xs @ ys)" by simp
next
  fix k
  have "filter (\<lambda>x. f x = f k) (sort_key f (xs @ ys))
        = filter (\<lambda>x. f x = f k) (sort_key f xs @ ys)"
    by (simp add: sort_key_stable)
  moreover have "(\<lambda>x. f k = f x) = (\<lambda>x. f x = f k)" by auto
  ultimately show "filter (\<lambda>x. f k = f x) (sort_key f (xs @ ys))
                   = filter (\<lambda>x. f k = f x) (sort_key f xs @ ys)"
    by simp
next
  show "sorted (map f (sort_key f (xs @ ys)))" by simp
qed

lemma weeklyData_foldl:
  "weeklyData (foldl addResultToWeekData w rs) =
     (let ws = filter (\<lambda>r. normalizeDayName (dayDir (sfile r)) = WEEKLY) rs
      in if ws = [] then weeklyData w
         else sort_key rank (weeklyData w @ concat (map extracted ws)))"
proof (induction rs arbitrary: w)
  case Nil
  show ?case by simp
next
  case (Cons r rs)
  show ?case
  proof (cases "normalizeDayName (dayDir (sfile r)) = WEEKLY")
    case True
    then show ?thesis
      by (simp add: Cons.IH weeklyData_addResult sort_key_sort_key_append Let_def)
  next
    case False
    then show ?thesis
      by (simp add: Cons.IH weeklyData_addResult Let_def)
  qed
qed

lemma dailyData_foldl_weekly:
  "\<forall>r \<in> set rs. normalizeDayName (dayDir (sfile r)) = WEEKLY \<Longrightarrow>
   dailyData (foldl addResultToWeekData w rs) = dailyData w"
  by (induction rs arbitrary: w) (simp_all add: dailyData_addResult_weekly)

section \<open>Claims on the two merge policies\<close>

text \<open>
  C2. Daily-style buckets are merged by rank, first seen wins. For a label \<open>d\<close> other
  than the summary label, a week \<open>w\<close> and any sequence of results \<open>rs\<close>:
  \<^item> one result for \<open>d\<close> leaves in the bucket its former records followed by those new
    records whose rank the bucket did not hold, the whole stably sorted by rank;
  \<^item> after the whole sequence (when it has a result for \<open>d\<close>) the bucket is sorted
    ascending by rank;
  \<^item> for every rank \<open>k\<close>, the records of rank \<open>k\<close> in the final bucket are those the bucket
    held at the start, if it held any, and otherwise those of the first result for \<open>d\<close>
    in processing order that has a record of rank \<open>k\<close>: records of that rank in later
    results are discarded.
\<close>

theorem C2_daily_bucket_first_seen_wins:
  assumes "d \<noteq> WEEKLY"
  shows
    "(\<forall>r. normalizeDayName (dayDir (sfile r)) = d \<longrightarrow>
        bucket (addResultToWeekData w r) d =
          sort_key rank
            (bucket w d @ filter (\<lambda>e. rank e \<notin> rank ` set (bucket w d)) (extracted r)))
     \<and> (let rs_d = filter (\<lambda>r. normalizeDayName (dayDir (sfile r)) = d) rs;
             b' = bucket (foldl addResultToWeekData w rs) d
         in (rs_d \<noteq> [] \<longrightarrow> sorted (map rank b'))
            \<and> (\<forall>k. filter (\<lambda>e. rank e = k) b' =
                  (if k \<in> rank ` set (bucket w d) then filter (\<lambda>e. rank e = k) (bucket w d)
                   else case find (\<lambda>r. k \<in> rank ` set (extracted r)) rs_d of
                          None \<Rightarrow> []
                        | Some r \<Rightarrow> filter (\<lambda>e. rank e = k) (extracted r))))"
proof (intro conjI allI impI)
  fix r :: ProcessingResult
  assume "normalizeDayName (dayDir (sfile r)) = d"
  then show "bucket (addResultToWeekData w r) d =
          sort_key rank
            (bucket w d @ filter (\<lambda>e. rank e \<notin> rank ` set (bucket w d)) (extracted r))"
    using assms by (simp add: bucket_addResult_same merge_ranked_def)
next
  define rs_d where "rs_d = filter (\<lambda>r. normalizeDayName (dayDir (sfile r)) = d) rs"
  define b' where "b' = bucket (foldl addResultToWeekData w rs) d"
  have b': "b' = foldl merge_ranked (bucket w d) (map extracted rs_d)"
    unfolding b'_def rs_d_def using assms by (rule bucket_foldl)
  have srt: "rs_d \<noteq> [] \<longrightarrow> sorted (map rank b')"
    unfolding b' by (simp add: sorted_foldl_merge)
  have per_rank: "filter (\<lambda>e. rank e = k) b' =
                  (if k \<in> rank ` set (bucket w d) then filter (\<lambda>e. rank e = k) (bucket w d)
                   else case find (\<lambda>r. k \<in> rank ` set (extracted r)) rs_d of
                          None \<Rightarrow> []
                        | Some r \<Rightarrow> filter (\<lambda>e. rank e = k) (extracted r))" for k
    unfolding b' filter_rank_foldl_merge find_map_extracted
    by (simp split: option.splits)
  from srt per_rank
  show "let rs_d = filter (\<lambda>r. normalizeDayName (dayDir (sfile r)) = d) rs;
             b' = bucket (foldl addResultToWeekData w rs) d
         in (rs_d \<noteq> [] \<longrightarrow> sorted (map rank b'))
            \<and> (\<forall>k. filter (\<lambda>e. rank e = k) b' =
                  (if k \<in> rank ` set (bucket w d) then filter (\<lambda>e. rank e = k) (bucket w d)
                   else case find (\<lambda>r. k \<in> rank ` set (extracted r)) rs_d of
                          None \<Rightarrow> []
                        | Some r \<Rightarrow> filter (\<lambda>e. rank e = k) (extracted r)))"
    unfolding rs_d_def b'_def Let_def by blast
qed

text \<open>
  The example of the specification: two Monday results with the ranks 1, 2, 3 and then
  2, 3, 4 leave the ranks 1 to 4, and the records of rank 2 and 3 are the first result's.
\<close>

lemma monday_example_bucket:
  "bucket (foldl addResultToWeekData empty_week [monday_first, monday_second]) ''Monday''
   = [entry 1 ''Ann'' 100, entry 2 ''Bob'' 90, entry 3 ''Cid'' 80, entry 4 ''Dan'' 70]"
  by (simp add: example_defs addResultToWeekData_def bucket_def normalizeDayName_def
        DayOfWeek_defs string_defs merge_entries_def)

theorem C2_daily_bucket_first_seen_wins_witness:
  "''Monday'' \<noteq> WEEKLY
   \<and> normalizeDayName (dayDir (sfile monday_second)) = ''Monday''
   \<and> filter (\<lambda>r. normalizeDayName (dayDir (sfile r)) = ''Monday'') [monday_first, monday_second]
       = [monday_first, monday_second]
   \<and> sorted (map rank
        (bucket (foldl addResultToWeekData empty_week [monday_first, monday_second]) ''Monday''))
   \<and> filter (\<lambda>e. rank e = 2)
        (bucket (foldl addResultToWeekData empty_week [monday_first, monday_second]) ''Monday'')
       = [entry 2 ''Bob'' 90]
   \<and> map rank
        (bucket (foldl addResultToWeekData empty_week [monday_first, monday_second]) ''Monday'')
       = [1, 2, 3, 4]"
proof -
  have d: "''Monday'' \<noteq> WEEKLY"
    by (simp add: DayOfWeek_defs)
  have n1: "normalizeDayName (dayDir (sfile monday_first)) = ''Monday''"
    and n2: "normalizeDayName (dayDir (sfile monday_second)) = ''Monday''"
    by (simp_all add: example_defs normalizeDayName_def DayOfWeek_defs string_defs)
  have b0: "bucket empty_week ''Monday'' = []"
    by (simp add: bucket_def empty_week_def)
  have r2: "find (\<lambda>r. 2 \<in> rank ` set (extracted r)) [monday_first, monday_second]
            = Some monday_first"
    by (simp add: example_defs)
  have e2: "filter (\<lambda>e. rank e = 2) (extracted monday_first) = [entry 2 ''Bob'' 90]"
    by (simp add: example_defs)
  note inst = C2_daily_bucket_first_seen_wins [OF d, of empty_week "[monday_first, monday_second]"]
  from inst have
    "sorted (map rank
        (bucket (foldl addResultToWeekData empty_week [monday_first, monday_second]) ''Monday''))"
    and "filter (\<lambda>e. rank e = 2)
        (bucket (foldl addResultToWeekData empty_week [monday_first, monday_second]) ''Monday'')
       = [entry 2 ''Bob'' 90]"
    unfolding Let_def using n1 n2 b0 r2 e2 by simp_all
  moreover have "map rank
        (bucket (foldl addResultToWeekData empty_week [monday_first, monday_second]) ''Monday'')
       = [1, 2, 3, 4]"
    unfolding monday_example_bucket by (simp add: entry_def)
  moreover have "filter (\<lambda>r. normalizeDayName (dayDir (sfile r)) = ''Monday'')
       [monday_first, monday_second] = [monday_first, monday_second]"
    using n1 n2 by simp
  ultimately show ?thesis
    using d n2 by blast
qed

text \<open>
  C3. Summary records are pooled, not deduplicated. For a week \<open>w\<close> and any sequence of
  results \<open>rs\<close>, with \<open>ws\<close> the results whose normalized label is \<open>Weekly\<close>: the summary
  bucket ends with exactly its former records and every record of every result in \<open>ws\<close>,
  each as often as it occurs; when \<open>ws\<close> is not empty the bucket is the stable sort by rank
  of the former records followed by the records of \<open>ws\<close> in processing order, hence sorted
  ascending by rank; and results for the summary label leave the daily buckets alone.
\<close>

theorem C3_summary_bucket_pooled:
  "(let ws = filter (\<lambda>r. normalizeDayName (dayDir (sfile r)) = WEEKLY) rs;
        wd' = weeklyData (foldl addResultToWeekData w rs)
    in mset wd' = mset (weeklyData w) + mset (concat (map extracted ws))
       \<and> (ws \<noteq> [] \<longrightarrow>
            wd' = sort_key rank (weeklyData w @ concat (map extracted ws))
            \<and> sorted (map rank wd'))
       \<and> (ws = rs \<longrightarrow> dailyData (foldl addResultToWeekData w rs) = dailyData w))"
proof -
  define ws where "ws = filter (\<lambda>r. normalizeDayName (dayDir (sfile r)) = WEEKLY) rs"
  define wd' where "wd' = weeklyData (foldl addResultToWeekData w rs)"
  have eq: "wd' = (if ws = [] then weeklyData w
                   else sort_key rank (weeklyData w @ concat (map extracted ws)))"
    unfolding wd'_def ws_def using weeklyData_foldl [of w rs] by (simp add: Let_def)
  have m: "mset wd' = mset (weeklyData w) + mset (concat (map extracted ws))"
    unfolding eq by simp
  have s: "ws \<noteq> [] \<longrightarrow>
            wd' = sort_key rank (weeklyData w @ concat (map extracted ws))
            \<and> sorted (map rank wd')"
    unfolding eq by simp
  have dd: "ws = rs \<longrightarrow> dailyData (foldl addResultToWeekData w rs) = dailyData w"
  proof
    assume "ws = rs"
    then have "\<forall>r \<in> set rs. normalizeDayName (dayDir (sfile r)) = WEEKLY"
      unfolding ws_def by (metis (mono_tags, lifting) filter_id_conv)
    then show "dailyData (foldl addResultToWeekData w rs) = dailyData w"
      by (rule dailyData_foldl_weekly)
  qed
  from m s dd show ?thesis
    unfolding ws_def wd'_def Let_def by blast
qed

text \<open>
  The example of the specification: two Weekly results, each with a record of rank 1
  under a different name, leave both records in the summary bucket.
\<close>

theorem C3_summary_bucket_pooled_witness:
  "filter (\<lambda>r. normalizeDayName (dayDir (sfile r)) = WEEKLY) [weekly_first, weekly_second]
     = [weekly_first, weekly_second]
   \<and> weeklyData (foldl addResultToWeekData empty_week [weekly_first, weekly_second])
     = [entry 1 ''Ann'' 500, entry 1 ''Zed'' 400]
   \<and> sorted (map rank
       (weeklyData (foldl addResultToWeekData empty_week [weekly_first, weekly_second])))
   \<and> dailyData (foldl addResultToWeekData empty_week [weekly_first, weekly_second]) = []"
proof -
  have ws: "filter (\<lambda>r. normalizeDayName (dayDir (sfile r)) = WEEKLY)
              [weekly_first, weekly_second] = [weekly_first, weekly_second]"
    by (simp add: example_defs normalizeDayName_def DayOfWeek_defs string_defs)
  have srt: "sort_key rank (weeklyData empty_week
               @ concat (map extracted [weekly_first, weekly_second]))
             = [entry 1 ''Ann'' 500, entry 1 ''Zed'' 400]"
    by (simp add: example_defs)
  have dd: "dailyData empty_week = []"
    by (simp add: empty_week_def)
  show ?thesis
    using C3_summary_bucket_pooled [of "[weekly_first, weekly_second]" empty_week]
    unfolding Let_def ws srt dd by (simp add: entry_def)
qed

section \<open>Validation\<close>

lemma validate_day_closed:
  "validate_day issues d = issues @
     (if day d \<notin> set DayOfWeek_values then [InvalidDayName (day d)] else []) @
     (if entries d = [] then [NoEntries (day d)]
      else if \<not> distinct (map rank (entries d)) then [DuplicateRanks (day d)] else [])"
proof -
  have ne: "[] \<notin> set DayOfWeek_values" by (simp add: DayOfWeek_defs)
  have d: "length (map rank (entries d)) \<noteq> length (remdups (map rank (entries d))) \<longleftrightarrow> \<not> distinct (map rank (entries d))"
    by (metis distinct_remdups length_remdups_eq remdups_id_iff_distinct)
  show ?thesis
    unfolding validate_day_def Let_def d using ne by auto
qed

lemma validate_day_append: "validate_day issues d = issues @ validate_day [] d"
  by (simp add: validate_day_closed)

lemma foldl_validate_day:
  "foldl validate_day issues ds = issues @ concat (map (validate_day []) ds)"
proof (induction ds arbitrary: issues)
  case Nil show ?case by simp
next
  case (Cons d ds)
  have "foldl validate_day issues (d # ds) = foldl validate_day (validate_day issues d) ds" by simp
  also have "\<dots> = validate_day issues d @ concat (map (validate_day []) ds)" by (rule Cons.IH)
  also have "\<dots> = issues @ validate_day [] d @ concat (map (validate_day []) ds)"
    by (subst validate_day_append) simp
  finally show ?case by simp
qed

lemma count_concat_map:
  assumes "\<And>x. length (filter P (f x)) = (if Q x then 1 else 0)"
  shows "length (filter P (concat (map f xs))) = length (filter Q xs)"
  by (induction xs) (simp_all add: assms)

lemma validateWeekData_issues:
  "snd (validateWeekData w) =
     (if weekNumber w \<le> 0 then [InvalidWeekNumber (weekNumber w)] else []) @
     (if weekDate w = [] then [MissingWeekDate] else []) @
     (if dailyData w = [] then [NoDailyData] else concat (map (validate_day []) (dailyData w)))"
  unfolding validateWeekData_def Let_def
  by (simp add: foldl_validate_day)

lemma count_InvalidDayName: "length (filter isInvalidDayName (snd (validateWeekData w))) = length (filter (\<lambda>d. day d \<notin> set DayOfWeek_values) (dailyData w))"
proof -
  have "length (filter isInvalidDayName (validate_day [] d)) = (if day d \<notin> set DayOfWeek_values then 1 else 0)" for d
    by (simp add: validate_day_closed)
  then have "length (filter isInvalidDayName (concat (map (validate_day []) ds))) = length (filter (\<lambda>d. day d \<notin> set DayOfWeek_values) ds)" for ds
    by (rule count_concat_map)
  then show ?thesis
    unfolding validateWeekData_issues by simp
qed

lemma count_NoEntries: "length (filter isNoEntries (snd (validateWeekData w))) = length (filter (\<lambda>d. entries d = []) (dailyData w))"
proof -
  have "length (filter isNoEntries (validate_day [] d)) = (if entries d = [] then 1 else 0)" for d
    by (simp add: validate_day_closed)
  then have "length (filter isNoEntries (concat (map (validate_day []) ds))) = length (filter (\<lambda>d. entries d = []) ds)" for ds
    by (rule count_concat_map)
  then show ?thesis
    unfolding validateWeekData_issues by simp
qed

lemma count_DuplicateRanks: "length (filter isDuplicateRanks (snd (validateWeekData w))) = length (filter (\<lambda>d. \<not> distinct (map rank (entries d))) (dailyData w))"
proof -
  have "length (filter isDuplicateRanks (validate_day [] d)) = (if \<not> distinct (map rank (entries d)) then 1 else 0)" for d
    by (auto simp add: validate_day_closed)
  then have "length (filter isDuplicateRanks (concat (map (validate_day []) ds))) = length (filter (\<lambda>d. \<not> distinct (map rank (entries d))) ds)" for ds
    by (rule count_concat_map)
  then show ?thesis
    unfolding validateWeekData_issues by simp
qed

lemma period_level_not_in_days:
  "filter isInvalidWeekNumber (validate_day [] d) = []" "filter (\<lambda>i. i = MissingWeekDate) (validate_day [] d) = []"
  "filter (\<lambda>i. i = NoDailyData) (validate_day [] d) = []"
  by (simp_all add: validate_day_closed)

lemma filter_concat_map_Nil: "(\<And>x. filter P (f x) = []) \<Longrightarrow> filter P (concat (map f xs)) = []"
  by (induction xs) simp_all

lemma count_period_level:
  "length (filter isInvalidWeekNumber (snd (validateWeekData w))) = (if weekNumber w \<le> 0 then 1 else 0)"
  "length (filter (\<lambda>i. i = MissingWeekDate) (snd (validateWeekData w))) = (if weekDate w = [] then 1 else 0)"
  "length (filter (\<lambda>i. i = NoDailyData) (snd (validateWeekData w))) = (if dailyData w = [] then 1 else 0)"
  unfolding validateWeekData_issues
  by (simp_all add: filter_concat_map_Nil period_level_not_in_days)

lemma valid_iff:
  "fst (validateWeekData w) \<longleftrightarrow> snd (validateWeekData w) = []"
  by (simp add: validateWeekData_def Let_def)

lemma valid_iff_checks:
  "fst (validateWeekData w) \<longleftrightarrow>
     weekNumber w > 0 \<and> weekDate w \<noteq> [] \<and> dailyData w \<noteq> [] \<and>
     (\<forall>d \<in> set (dailyData w). day d \<in> set DayOfWeek_values \<and> entries d \<noteq> [] \<and> distinct (map rank (entries d)))"
proof -
  have "validate_day [] d = [] \<longleftrightarrow> day d \<in> set DayOfWeek_values \<and> entries d \<noteq> [] \<and> distinct (map rank (entries d))" for d
    by (simp add: validate_day_closed)
  then have "concat (map (validate_day []) ds) = [] \<longleftrightarrow> (\<forall>d \<in> set ds. day d \<in> set DayOfWeek_values \<and> entries d \<noteq> [] \<and> distinct (map rank (entries d)))" for ds
    by (induction ds) auto
  then show ?thesis
    unfolding valid_iff validateWeekData_issues by auto
qed


text \<open>
  C9 (as stated). The claim has each of the six checks append exactly one message when it
  fails. The three checks on buckets run inside the loop over the buckets and push a
  message for every bucket that fails: a period with two buckets of unknown label gets two
  messages from the one check of the labels.
\<close>

theorem C9_two_bad_labels_counterexample:
  "validateWeekData two_bad_labels = (False, [InvalidDayName ''Foo'', InvalidDayName ''Bar''])
   \<and> length (filter isInvalidDayName (snd (validateWeekData two_bad_labels))) = 2"
  by (simp add: validateWeekData_def validate_day_def example_defs DayOfWeek_defs)

text \<open>
  C9 (amended). For every period, validation returns a pair \<open>(valid, issues)\<close> in which
  \<open>valid\<close> holds exactly when \<open>issues\<close> is empty, and exactly when all six checks pass.
  Each of the three checks on the period (identifier above 0, anchor date not empty, at
  least one daily bucket) contributes one message when it fails and none otherwise; each of
  the three checks on buckets (label canonical, bucket not empty, ranks distinct)
  contributes one message for every bucket that fails it. The counts are independent of
  each other: no check is skipped because another one failed.
\<close>

theorem C9_validateWeekData_checks:
  "(let valid = fst (validateWeekData w); issues = snd (validateWeekData w)
    in (valid \<longleftrightarrow> issues = [])
       \<and> (valid \<longleftrightarrow>
            weekNumber w > 0 \<and> weekDate w \<noteq> [] \<and> dailyData w \<noteq> [] \<and>
            (\<forall>d \<in> set (dailyData w).
               day d \<in> set DayOfWeek_values \<and> entries d \<noteq> [] \<and> distinct (map rank (entries d))))
       \<and> length (filter isInvalidWeekNumber issues) = (if weekNumber w \<le> 0 then 1 else 0)
       \<and> length (filter (\<lambda>i. i = MissingWeekDate) issues) = (if weekDate w = [] then 1 else 0)
       \<and> length (filter (\<lambda>i. i = NoDailyData) issues) = (if dailyData w = [] then 1 else 0)
       \<and> length (filter isInvalidDayName issues)
           = length (filter (\<lambda>d. day d \<notin> set DayOfWeek_values) (dailyData w))
       \<and> length (filter isNoEntries issues)
           = length (filter (\<lambda>d. entries d = []) (dailyData w))
       \<and> length (filter isDuplicateRanks issues)
           = length (filter (\<lambda>d. \<not> distinct (map rank (entries d))) (dailyData w)))"
  unfolding Let_def
  using valid_iff [of w] valid_iff_checks [of w] count_period_level [of w]
    count_InvalidDayName [of w] count_NoEntries [of w] count_DuplicateRanks [of w]
  by (intro conjI) blast+

text \<open>
  A period that fails every check but the third: identifier 0, no date, a bucket with an
  unknown label and no record, and a Monday bucket with rank 1 twice.
\<close>

theorem C9_validateWeekData_checks_witness:
  "validateWeekData all_wrong =
     (False, [InvalidWeekNumber 0, MissingWeekDate, InvalidDayName ''Foo'', NoEntries ''Foo'',
              DuplicateRanks ''Monday''])
   \<and> length (filter isInvalidDayName (snd (validateWeekData all_wrong))) = 1
   \<and> length (filter isNoEntries (snd (validateWeekData all_wrong))) = 1
   \<and> length (filter isDuplicateRanks (snd (validateWeekData all_wrong))) = 1
   \<and> fst (validateWeekData good_week)"
proof -
  have ev: "validateWeekData all_wrong =
     (False, [InvalidWeekNumber 0, MissingWeekDate, InvalidDayName ''Foo'', NoEntries ''Foo'',
              DuplicateRanks ''Monday''])"
    by (simp add: validateWeekData_def validate_day_def example_defs DayOfWeek_defs)
  have good: "weekNumber good_week > 0 \<and> weekDate good_week \<noteq> [] \<and> dailyData good_week \<noteq> [] \<and>
            (\<forall>d \<in> set (dailyData good_week).
               day d \<in> set DayOfWeek_values \<and> entries d \<noteq> [] \<and> distinct (map rank (entries d)))"
    by (simp add: example_defs DayOfWeek_defs)
  from C9_validateWeekData_checks [of good_week] good
  have "fst (validateWeekData good_week)"
    unfolding Let_def by blast
  moreover from C9_validateWeekData_checks [of all_wrong]
  have "length (filter isInvalidDayName (snd (validateWeekData all_wrong))) = 1"
    and "length (filter isNoEntries (snd (validateWeekData all_wrong))) = 1"
    and "length (filter isDuplicateRanks (snd (validateWeekData all_wrong))) = 1"
    unfolding Let_def by (simp_all add: example_defs DayOfWeek_defs)
  ultimately show ?thesis
    using ev by simp
qed

section \<open>Week directories\<close>

lemma isWeekDirectory_iff:
  "isWeekDirectory name \<longleftrightarrow>
     (\<exists>w ds. name = w @ ds \<and> toLowerCase w = ''week'' \<and> ds \<noteq> [] \<and> list_all isDigit ds)"
proof
  assume "isWeekDirectory name"
  then have "name = take 4 name @ drop 4 name \<and> toLowerCase (take 4 name) = ''week''
             \<and> drop 4 name \<noteq> [] \<and> list_all isDigit (drop 4 name)"
    by (simp add: isWeekDirectory_def)
  then show "\<exists>w ds. name = w @ ds \<and> toLowerCase w = ''week'' \<and> ds \<noteq> [] \<and> list_all isDigit ds"
    by blast
next
  assume "\<exists>w ds. name = w @ ds \<and> toLowerCase w = ''week'' \<and> ds \<noteq> [] \<and> list_all isDigit ds"
  then obtain w ds where n: "name = w @ ds" and w: "toLowerCase w = ''week''"
    and ds: "ds \<noteq> []" "list_all isDigit ds" by blast
  from w have "length (toLowerCase w) = length ''week''" by simp
  then have "length w = 4" by (simp add: toLowerCase_def)
  with n w ds show "isWeekDirectory name"
    by (simp add: isWeekDirectory_def)
qed


lemma isWeekDirectory_alt_iff:
  "isWeekDirectory_alt name \<longleftrightarrow>
     (\<exists>w ds. name = w @ ds \<and> toLowerCase w = ''week'' \<and> list_all isDigit ds)"
proof
  assume "isWeekDirectory_alt name"
  then have "name = take 4 name @ drop 4 name \<and> toLowerCase (take 4 name) = ''week''
             \<and> list_all isDigit (drop 4 name)"
    by (simp add: isWeekDirectory_alt_def)
  then show "\<exists>w ds. name = w @ ds \<and> toLowerCase w = ''week'' \<and> list_all isDigit ds"
    by blast
next
  assume "\<exists>w ds. name = w @ ds \<and> toLowerCase w = ''week'' \<and> list_all isDigit ds"
  then obtain w ds where n: "name = w @ ds" and w: "toLowerCase w = ''week''"
    and ds: "list_all isDigit ds" by blast
  from w have "length (toLowerCase w) = length ''week''" by simp
  then have "length w = 4" by (simp add: toLowerCase_def)
  with n w ds show "isWeekDirectory_alt name"
    by (simp add: isWeekDirectory_alt_def)
qed

lemma isWeekDirectory_alt_examples:
  "isWeekDirectory_alt ''week''" "isWeekDirectory_alt ''Week''"
  "isWeekDirectory_alt ''week1''" "isWeekDirectory_alt ''WEEK23''"
  by (simp_all add: isWeekDirectory_alt_def string_defs)

lemma isWeekDirectory_imp_alt: "isWeekDirectory name \<Longrightarrow> isWeekDirectory_alt name"
  by (simp add: isWeekDirectory_def isWeekDirectory_alt_def)

text \<open>
  C5. The claim lets a period directory be named by the token alone: \<^verbatim>\<open>week\<close> and \<^verbatim>\<open>Week\<close>
  are to match. The test of \<^verbatim>\<open>src/utils/fileSystem.ts\<close> asks for at least one digit and
  rejects both names; it accepts \<^verbatim>\<open>week1\<close> and \<^verbatim>\<open>WEEK23\<close>. The second copy of the class
  accepts all four (\<open>isWeekDirectory_alt_examples\<close>).
\<close>

theorem C5_isWeekDirectory_needs_a_digit:
  "\<not> isWeekDirectory ''week'' \<and> \<not> isWeekDirectory ''Week''
   \<and> isWeekDirectory ''week1'' \<and> isWeekDirectory ''WEEK23''"
  by (simp add: isWeekDirectory_def string_defs)

section \<open>The most recent week directory\<close>

lemma last_filter_last: "ys \<noteq> [] \<Longrightarrow> P (last ys) \<Longrightarrow> last (filter P ys) = last ys"
  by (induction ys) (auto split: if_splits simp: filter_empty_conv)

lemma last_sort_key:
  assumes "xs \<noteq> []"
  shows "\<exists>pre post. xs = pre @ last (sort_key f xs) # post
           \<and> (\<forall>m \<in> set pre. f m \<le> f (last (sort_key f xs)))
           \<and> (\<forall>m \<in> set post. f m < f (last (sort_key f xs)))"
proof -
  define ys where "ys = sort_key f xs"
  define n where "n = last ys"
  have "length ys = length xs" by (simp add: ys_def)
  with assms have ne: "ys \<noteq> []" by auto
  have srt: "sorted (map f ys)" by (simp add: ys_def)
  have mx: "f m \<le> f n" if "m \<in> set xs" for m
  proof -
    from that have "m \<in> set ys" by (simp add: ys_def)
    then obtain i where i: "i < length ys" "ys ! i = m" by (auto simp: in_set_conv_nth)
    have "map f ys ! i \<le> map f ys ! (length ys - 1)"
      using srt i ne by (intro sorted_nth_mono) auto
    then show ?thesis using i ne by (simp add: n_def last_conv_nth)
  qed
  have "last (filter (\<lambda>y. f y = f n) ys) = n"
    using ne by (simp add: n_def last_filter_last)
  then have lf: "last (filter (\<lambda>y. f y = f n) xs) = n"
    by (simp add: ys_def sort_key_stable)
  have "n \<in> set ys" using ne by (simp add: n_def)
  then have "n \<in> set xs" by (simp add: ys_def)
  then have "\<exists>x \<in> set xs. f x = f n" by blast
  then obtain pre x post where sp: "xs = pre @ x # post" "f x = f n" "\<forall>z \<in> set post. f z \<noteq> f n"
    using split_list_last_prop [of xs "\<lambda>y. f y = f n"] by blast
  then have "filter (\<lambda>y. f y = f n) xs = filter (\<lambda>y. f y = f n) pre @ [x]"
    by (simp add: filter_empty_conv)
  with lf have "x = n" by simp
  with sp mx have "xs = pre @ n # post \<and> (\<forall>m \<in> set pre. f m \<le> f n) \<and> (\<forall>m \<in> set post. f m < f n)"
    by (auto simp: less_le)
  then show ?thesis unfolding n_def ys_def by blast
qed


lemma takeWhile_eq_self: "list_all P xs \<Longrightarrow> takeWhile P xs = xs"
  by (induction xs) auto

lemma getWeekNumber_week_directory:
  assumes "isWeekDirectory name"
  shows "getWeekNumber name = parseInt10 (drop 4 name)"
proof -
  from assms have w: "toLowerCase (take 4 name) = ''week''" and ne: "drop 4 name \<noteq> []"
    and ds: "list_all isDigit (drop 4 name)"
    by (simp_all add: isWeekDirectory_def)
  from ne obtain c cs where n: "name = c # cs" by (cases name) auto
  have w': "toLowerCase (take 4 (c # cs)) = ''week''" using w unfolding n .
  have ne': "drop 4 (c # cs) \<noteq> []" using ne unfolding n .
  have "takeWhile isDigit (drop 4 name) = drop 4 name" using ds by (rule takeWhile_eq_self)
  then have tw: "takeWhile isDigit (drop 4 (c # cs)) = drop 4 (c # cs)" unfolding n .
  have "match_week_digits (c # cs) = Some (drop 4 (c # cs))"
    by (simp only: match_week_digits.simps w' tw ne' simp_thms if_True)
  then show ?thesis by (simp add: getWeekNumber_def n)
qed

lemma getWeekNumber_exact:
  assumes "isWeekDirectory name" and "decimal_value (drop 4 name) < 9007199254740992"
  shows "getWeekNumber name = decimal_value (drop 4 name)"
  using assms by (simp add: getWeekNumber_week_directory parseInt10_def)

lemma sorted_week_names:
  assumes "sorted (map fst es)"
  shows "sorted (map fst (filter P es))"
  using assms by (rule sorted_filter)




section \<open>Scanning the week directory\<close>

lemma collect_Inr_map:
  "collect (map f xs) = Inr ys \<Longrightarrow> list_all2 (\<lambda>x y. f x = Inr y) xs ys"
proof (induction xs arbitrary: ys)
  case Nil then show ?case by simp
next
  case (Cons x xs)
  then show ?case
    by (cases "f x"; cases "collect (map f xs)") auto
qed

lemma collect_succeeds:
  "(\<And>x. x \<in> set xs \<Longrightarrow> \<exists>y. f x = Inr y) \<Longrightarrow> \<exists>ys. collect (map f xs) = Inr ys"
proof (induction xs)
  case Nil then show ?case by simp
next
  case (Cons x xs)
  then obtain y ys where "f x = Inr y" "collect (map f xs) = Inr ys"
    by (metis list.set_intros(1,2))
  then show ?case by simp
qed

lemma scanFile_Inr:
  "scanFile wn d dp dn f = Inr s \<Longrightarrow> fileName s = f \<and> dayDir s = d \<and> week s = wn"
  by (auto simp: scanFile_def split: option.splits)

lemma scanDay_Inr:
  assumes "scanDay wn wp weekNode d = Inr b"
  shows "(\<forall>s \<in> set b. dayDir s = d \<and> week s = wn) \<and> sorted (map fileName b)"
proof -
  from assms obtain dn files where
    f: "getImageFiles dn = Some files"
    and c: "collect (map (scanFile wn d (path_join wp d) dn) files) = Inr b"
    by (auto simp: scanDay_def Let_def split: option.splits)
  from c have l: "list_all2 (\<lambda>x y. scanFile wn d (path_join wp d) dn x = Inr y) files b"
    by (rule collect_Inr_map)
  then have "list_all2 (\<lambda>x y. fileName y = x \<and> dayDir y = d \<and> week y = wn) files b"
    by (rule list_all2_mono) (auto dest: scanFile_Inr)
  then have all: "\<forall>s \<in> set b. dayDir s = d \<and> week s = wn" and names: "map fileName b = files"
    by (auto simp: list_all2_conv_all_nth in_set_conv_nth intro: nth_equalityI)
  from f have "sorted files"
    by (auto simp: getImageFiles_def split: option.splits)
  with all names show ?thesis by simp
qed

lemma sorted_wrt_concat_blocks:
  assumes "list_all2 (\<lambda>d b. \<forall>s \<in> set b. key s = d) ds bs"
    and "sorted_wrt Q ds"
    and "\<And>b. b \<in> set bs \<Longrightarrow> sorted_wrt R b"
    and "\<And>s t. Q (key s) (key t) \<Longrightarrow> R s t"
  shows "sorted_wrt R (concat bs)"
  using assms(1,2,3)
proof (induction ds bs rule: list_all2_induct)
  case Nil then show ?case by simp
next
  case (Cons d ds b bs)
  have "R s t" if "s \<in> set b" "t \<in> set (concat bs)" for s t
  proof -
    from that(2) obtain c where c: "c \<in> set bs" "t \<in> set c" by auto
    then obtain i where i: "i < length bs" "bs ! i = c" by (auto simp: in_set_conv_nth)
    with Cons.hyps(2) have "\<forall>u \<in> set c. key u = ds ! i" "i < length ds"
      by (auto simp: list_all2_conv_all_nth)
    with c have kt: "key t = ds ! i" and "ds ! i \<in> set ds" by auto
    with Cons.prems(1) have "Q d (ds ! i)" by auto
    moreover from Cons.hyps(1) that(1) have "key s = d" by auto
    ultimately show ?thesis using kt assms(4) by auto
  qed
  with Cons show ?case by (auto simp: sorted_wrt_append)
qed


lemma filter_concat_absent:
  assumes "list_all2 (\<lambda>d b. \<forall>s \<in> set b. key s = d) ds bs" and "d \<notin> set ds"
  shows "filter (\<lambda>s. key s = d) (concat bs) = []"
  using assms by (induction ds bs rule: list_all2_induct) (auto simp: filter_empty_conv)

lemma filter_concat_block:
  assumes "list_all2 (\<lambda>d b. \<forall>s \<in> set b. key s = d) ds bs" and "distinct ds"
  shows "filter (\<lambda>s. key s = d) (concat bs) = [] \<or> filter (\<lambda>s. key s = d) (concat bs) \<in> set bs"
  using assms
proof (induction ds bs rule: list_all2_induct)
  case Nil then show ?case by simp
next
  case (Cons d' ds b bs)
  show ?case
  proof (cases "d = d'")
    case True
    with Cons.prems have "d \<notin> set ds" by simp
    with Cons.hyps(2) have "filter (\<lambda>s. key s = d) (concat bs) = []"
      by (rule filter_concat_absent)
    moreover from True Cons.hyps(1) have "filter (\<lambda>s. key s = d) b = b"
      by (auto simp: filter_id_conv)
    ultimately show ?thesis by simp
  next
    case False
    with Cons.hyps(1) have "filter (\<lambda>s. key s = d) b = []"
      by (auto simp: filter_empty_conv)
    with Cons.IH Cons.prems show ?thesis by auto
  qed
qed

lemma filter_concat_together:
  assumes "list_all2 (\<lambda>d b. \<forall>s \<in> set b. key s = d) ds bs" and "distinct ds"
  shows "\<exists>pre post. concat bs = pre @ filter (\<lambda>s. key s = d) (concat bs) @ post
           \<and> (\<forall>s \<in> set pre \<union> set post. key s \<noteq> d)"
  using assms
proof (induction ds bs rule: list_all2_induct)
  case Nil
  then show ?case by simp
next
  case (Cons d' ds b bs)
  show ?case
  proof (cases "d = d'")
    case True
    with Cons.prems have "d \<notin> set ds" by simp
    with Cons.hyps(2) have none: "filter (\<lambda>s. key s = d) (concat bs) = []"
      by (rule filter_concat_absent)
    from True Cons.hyps(1) have all: "filter (\<lambda>s. key s = d) b = b"
      by (auto simp: filter_id_conv)
    from none have "\<forall>s \<in> set (concat bs). key s \<noteq> d"
      by (simp add: filter_empty_conv)
    then have "concat (b # bs) = [] @ filter (\<lambda>s. key s = d) (concat (b # bs)) @ concat bs
        \<and> (\<forall>s \<in> set [] \<union> set (concat bs). key s \<noteq> d)"
      using none all by simp
    then show ?thesis by blast
  next
    case False
    with Cons.hyps(1) have none: "filter (\<lambda>s. key s = d) b = []" "\<forall>s \<in> set b. key s \<noteq> d"
      by (auto simp: filter_empty_conv)
    from Cons.IH Cons.prems obtain pre post where
      ih: "concat bs = pre @ filter (\<lambda>s. key s = d) (concat bs) @ post"
      "\<forall>s \<in> set pre \<union> set post. key s \<noteq> d"
      by auto
    have "concat (b # bs) = (b @ pre) @ filter (\<lambda>s. key s = d) (concat (b # bs)) @ post"
      using ih(1) none(1) by simp
    moreover have "\<forall>s \<in> set (b @ pre) \<union> set post. key s \<noteq> d"
      using ih(2) none(2) by auto
    ultimately show ?thesis by blast
  qed
qed

lemma sorted_wrt_filter_nth:
  assumes "sorted_wrt R (filter P xs)" and "i < j" and "j < length xs"
    and "P (xs ! i)" and "P (xs ! j)"
  shows "R (xs ! i) (xs ! j)"
proof -
  from assms(2,3) have i: "i < length xs" by simp
  then have xs: "xs = take i xs @ xs ! i # drop (Suc i) xs"
    by (rule id_take_nth_drop)
  have "filter P xs = filter P (take i xs) @ xs ! i # filter P (drop (Suc i) xs)"
    by (subst xs) (simp add: assms(4))
  with assms(1) have "\<forall>y \<in> set (filter P (drop (Suc i) xs)). R (xs ! i) y"
    by (simp add: sorted_wrt_append)
  moreover have "xs ! j \<in> set (drop (Suc i) xs)"
    using assms(2,3) by (auto simp: in_set_conv_nth intro!: exI[of _ "j - Suc i"])
  ultimately show ?thesis using assms(5) by simp
qed

lemma wf_fs_child:
  assumes "wf_fs n" and "child n name = Some c"
  shows "wf_fs c"
proof (cases n)
  case (File s b)
  with assms(2) show ?thesis by (simp add: child_def)
next
  case (Dir s b es)
  with assms(2) have "(name, c) \<in> set es" by (auto simp: child_def dest: map_of_SomeD)
  with assms(1) Dir show ?thesis by (auto simp: list_all_iff)
qed

lemma dayOrderOf_day_directory:
  assumes "isDayDirectory d" and "isDayDirectory e" and "dayOrderOf d = dayOrderOf e"
  shows "normalizeDay d = normalizeDay e"
  using assms
  by (auto simp: isDayDirectory_def dayOrderOf_def dayOrder_def DayOfWeek_defs)


lemma basename_path_join:
  assumes "name \<noteq> []" and "CHR ''/'' \<notin> set name"
  shows "basename (path_join p name) = name"
proof -
  from assms(1) obtain x xs where r: "rev name = x # xs" by (cases "rev name") auto
  with assms(2) have x: "x \<noteq> CHR ''/''"
    by (metis list.set_intros(1) set_rev)
  have "dropWhile (\<lambda>c. c = CHR ''/'') (rev (p @ ''/'' @ name)) = rev name @ ''/'' @ rev p"
    using r x by simp
  moreover have "takeWhile (\<lambda>c. c \<noteq> CHR ''/'') (rev name @ ''/'' @ rev p) = rev name"
    using assms(2) by (subst takeWhile_append2) auto
  ultimately show ?thesis
    by (simp add: basename_def path_join_def)
qed

lemma week_directory_no_slash:
  assumes "isWeekDirectory n"
  shows "n \<noteq> [] \<and> CHR ''/'' \<notin> set n"
proof -
  from assms have w: "toLowerCase (take 4 n) = ''week''" and ne: "drop 4 n \<noteq> []"
    and ds: "list_all isDigit (drop 4 n)"
    by (simp_all add: isWeekDirectory_def)
  have "CHR ''/'' \<notin> set (take 4 n)"
  proof
    assume "CHR ''/'' \<in> set (take 4 n)"
    then have "toLowerCase_char CHR ''/'' \<in> set (toLowerCase (take 4 n))"
      unfolding toLowerCase_def by (metis image_eqI set_map)
    then show False unfolding w by (simp add: toLowerCase_char_def)
  qed
  moreover have "CHR ''/'' \<notin> set (drop 4 n)"
    using ds by (auto simp: list_all_iff isDigit_def)
  moreover have "set n = set (take 4 n) \<union> set (drop 4 n)"
    by (metis append_take_drop_id set_append)
  ultimately have "CHR ''/'' \<notin> set n" by simp
  moreover from ne have "n \<noteq> []" by auto
  ultimately show ?thesis by simp
qed

lemma mostRecentWeekDirName_Some:
  assumes "mostRecentWeekDirName es = Some n"
  shows "isWeekDirectory n \<and> (\<exists>c. (n, c) \<in> set es \<and> isDirectory c)"
proof -
  define ws where "ws = map fst (filter (\<lambda>e. isDirectory (snd e) \<and> isWeekDirectory (fst e)) es)"
  from assms have "sort_key getWeekNumber ws \<noteq> []" and "n = last (sort_key getWeekNumber ws)"
    by (auto simp: mostRecentWeekDirName_def Let_def ws_def split: if_splits)
  then have "n \<in> set (sort_key getWeekNumber ws)" by (metis last_in_set)
  then have "n \<in> set ws" by simp
  then show ?thesis by (auto simp: ws_def)
qed

lemma scan_by_periodDir:
  "\<exists>weekPath. scanScreenshotDirectory inputPath (Some root) =
     (case periodDir inputPath root of
        None \<Rightarrow> Inl NoWeekDirectoryFound
      | Some weekNode \<Rightarrow> scanWeek weekPath weekNode)"
proof (cases "isWeekDirectory (basename inputPath)")
  case True
  then show ?thesis
    by (intro exI[of _ inputPath]) (simp add: scanScreenshotDirectory_def periodDir_def)
next
  case False
  show ?thesis
  proof (cases "readdir root")
    case None
    with False show ?thesis
      by (simp add: scanScreenshotDirectory_def periodDir_def findMostRecentWeekDir_def Let_def)
  next
    case (Some es)
    show ?thesis
    proof (cases "mostRecentWeekDirName es")
      case None
      with False Some show ?thesis
        by (simp add: scanScreenshotDirectory_def periodDir_def findMostRecentWeekDir_def Let_def)
    next
      case (Some n)
      then have "isWeekDirectory n" by (simp add: mostRecentWeekDirName_Some)
      then have "basename (path_join inputPath n) = n"
        by (simp add: basename_path_join week_directory_no_slash)
      with False \<open>readdir root = Some es\<close> Some show ?thesis
        by (intro exI[of _ "path_join inputPath n"])
           (auto simp add: scanScreenshotDirectory_def periodDir_def findMostRecentWeekDir_def
              Let_def child_def split: option.splits)
    qed
  qed
qed

lemma wf_fs_periodDir:
  assumes "wf_fs root" and "periodDir inputPath root = Some wn"
  shows "wf_fs wn"
proof (cases "isWeekDirectory (basename inputPath)")
  case True
  with assms show ?thesis by (simp add: periodDir_def)
next
  case False
  with assms(2) obtain es n where "readdir root = Some es" "map_of es n = Some wn"
    by (auto simp: periodDir_def split: option.splits)
  then have "child root n = Some wn" by (simp add: child_def)
  with assms(1) show ?thesis by (rule wf_fs_child)
qed

lemma scanDay_succeeds:
  assumes "wf_fs weekNode" and "d \<in> set (categoryDirs weekNode)"
  shows "\<exists>b. scanDay wn wp weekNode d = Inr b"
proof -
  from assms(2) obtain es where es: "readdir weekNode = Some es"
    by (cases "readdir weekNode") (auto simp: categoryDirs_def)
  with assms(2) obtain c where dc: "(d, c) \<in> set es" and dir: "isDirectory c"
    by (auto simp: categoryDirs_def)
  from es assms(1) have "distinct (map fst es)" by (cases weekNode) auto
  with dc have "map_of es d = Some c" by simp
  with es have ch: "child weekNode d = Some c" by (simp add: child_def)
  from dir obtain s b es' where c: "c = Dir s b es'" by (cases c) auto
  then have gi: "getImageFiles c = Some (sort (filter isImageFile (map fst es')))"
    by (simp add: getImageFiles_def)
  have "\<exists>y. scanFile wn d (path_join wp d) c f = Inr y"
    if "f \<in> set (sort (filter isImageFile (map fst es')))" for f
  proof -
    from that have "f \<in> fst ` set es'" by auto
    then have "map_of es' f \<noteq> None" by (simp add: map_of_eq_None_iff)
    then show ?thesis by (auto simp: scanFile_def child_def c)
  qed
  then have "\<exists>ys. collect (map (scanFile wn d (path_join wp d) c)
               (sort (filter isImageFile (map fst es')))) = Inr ys"
    by (rule collect_succeeds)
  with ch gi show ?thesis by (simp add: scanDay_def Let_def)
qed

lemma getDayDirectories_categoryDirs:
  "isDirectory weekNode \<Longrightarrow>
   getDayDirectories weekNode = Some (sort_key dayOrderOf (categoryDirs weekNode))"
  by (cases weekNode) (simp_all add: getDayDirectories_def categoryDirs_def)

lemma getDayDirectories_Some:
  "getDayDirectories weekNode = Some ds \<Longrightarrow>
   isDirectory weekNode \<and> ds = sort_key dayOrderOf (categoryDirs weekNode)"
  by (cases weekNode) (simp_all add: getDayDirectories_def categoryDirs_def)

lemma sort_key_Nil_iff: "sort_key f xs = [] \<longleftrightarrow> xs = []"
  by (metis length_0_conv length_sort)

lemma scanWeek_returns_iff:
  assumes "wf_fs weekNode"
  shows "(\<exists>fs. scanWeek wp weekNode = Inr fs) \<longleftrightarrow> isDirectory weekNode \<and> categoryDirs weekNode \<noteq> []"
proof
  assume "\<exists>fs. scanWeek wp weekNode = Inr fs"
  then obtain ds where "getDayDirectories weekNode = Some ds" "ds \<noteq> []"
    by (auto simp: scanWeek_def Let_def split: option.splits if_splits)
  then show "isDirectory weekNode \<and> categoryDirs weekNode \<noteq> []"
    by (auto dest!: getDayDirectories_Some)
next
  assume v: "isDirectory weekNode \<and> categoryDirs weekNode \<noteq> []"
  then have g: "getDayDirectories weekNode = Some (sort_key dayOrderOf (categoryDirs weekNode))"
    by (simp add: getDayDirectories_categoryDirs)
  have "\<exists>b. scanDay (basename wp) wp weekNode d = Inr b"
    if "d \<in> set (sort_key dayOrderOf (categoryDirs weekNode))" for d
    using that assms by (simp add: scanDay_succeeds)
  then obtain bs where
    "collect (map (scanDay (basename wp) wp weekNode) (sort_key dayOrderOf (categoryDirs weekNode)))
       = Inr bs"
    using collect_succeeds by blast
  with g v show "\<exists>fs. scanWeek wp weekNode = Inr fs"
    by (simp add: scanWeek_def Let_def sort_key_Nil_iff)
qed

lemma scan_returns_iff:
  assumes "wf_fs root"
  shows "(\<exists>fs. scanScreenshotDirectory inputPath (Some root) = Inr fs) \<longleftrightarrow> scannable_tree inputPath root"
proof -
  obtain wp where sc: "scanScreenshotDirectory inputPath (Some root) =
     (case periodDir inputPath root of
        None \<Rightarrow> Inl NoWeekDirectoryFound
      | Some weekNode \<Rightarrow> scanWeek wp weekNode)"
    using scan_by_periodDir by blast
  show ?thesis
  proof (cases "periodDir inputPath root")
    case None
    with sc show ?thesis by (simp add: scannable_tree_def)
  next
    case (Some wn)
    with assms have "wf_fs wn" by (simp add: wf_fs_periodDir)
    then have "(\<exists>fs. scanWeek wp wn = Inr fs) \<longleftrightarrow> isDirectory wn \<and> categoryDirs wn \<noteq> []"
      by (rule scanWeek_returns_iff)
    with sc Some show ?thesis by (simp add: scannable_tree_def)
  qed
qed


lemma sorted_wrt_all:
  "(\<And>x y. x \<in> set xs \<Longrightarrow> y \<in> set xs \<Longrightarrow> R x y) \<Longrightarrow> sorted_wrt R xs"
  by (induction xs) auto

lemma scanWeek_blocks:
  assumes "scanWeek wp wn = Inr fs"
  shows "\<exists>bs. fs = concat bs
           \<and> list_all2 (\<lambda>d b. (\<forall>s \<in> set b. dayDir s = d) \<and> sorted (map fileName b))
                (sort_key dayOrderOf (categoryDirs wn)) bs"
proof -
  from assms obtain ds bs where g: "getDayDirectories wn = Some ds"
    and c: "collect (map (scanDay (basename wp) wp wn) ds) = Inr bs"
    and fs: "fs = sort_key (\<lambda>s. dayOrderOf (dayDir s)) (concat bs)"
    by (auto simp: scanWeek_def Let_def split: option.splits if_splits sum.splits)
  from g have ds: "ds = sort_key dayOrderOf (categoryDirs wn)"
    by (simp add: getDayDirectories_Some)
  from c have "list_all2 (\<lambda>d b. scanDay (basename wp) wp wn d = Inr b) ds bs"
    by (rule collect_Inr_map)
  then have l: "list_all2 (\<lambda>d b. (\<forall>s \<in> set b. dayDir s = d) \<and> sorted (map fileName b)) ds bs"
    by (rule list_all2_mono) (auto dest: scanDay_Inr)
  then have l1: "list_all2 (\<lambda>d b. \<forall>s \<in> set b. dayDir s = d) ds bs"
    by (rule list_all2_mono) simp
  have "sorted_wrt (\<lambda>s t. dayOrderOf (dayDir s) \<le> dayOrderOf (dayDir t)) (concat bs)"
  proof (rule sorted_wrt_concat_blocks [OF l1, where Q = "\<lambda>d e. dayOrderOf d \<le> dayOrderOf e"])
    have "sorted (map dayOrderOf ds)" by (simp add: ds)
    then show "sorted_wrt (\<lambda>d e. dayOrderOf d \<le> dayOrderOf e) ds"
      by (simp add: sorted_map)
  next
    fix b assume "b \<in> set bs"
    then obtain i where "i < length bs" "bs ! i = b" by (auto simp: in_set_conv_nth)
    with l1 have "\<forall>s \<in> set b. dayDir s = ds ! i" by (auto simp: list_all2_conv_all_nth)
    then show "sorted_wrt (\<lambda>s t. dayOrderOf (dayDir s) \<le> dayOrderOf (dayDir t)) b"
      by (intro sorted_wrt_all) simp
  qed simp
  then have "sorted (map (\<lambda>s. dayOrderOf (dayDir s)) (concat bs))"
    by (simp add: sorted_map)
  then have "fs = concat bs"
    unfolding fs by (rule sort_key_id_if_sorted)
  with l ds show ?thesis by blast
qed

lemma scanWeek_sorted:
  assumes "scanWeek wp wn = Inr fs" and "wf_fs wn"
  shows "sorted (map (\<lambda>s. dayOrderOf (dayDir s)) fs)"
    and "sorted (map fileName (filter (\<lambda>s. dayDir s = d) fs))"
    and "\<forall>s \<in> set fs. isDayDirectory (dayDir s)"
    and "\<exists>pre post. fs = pre @ filter (\<lambda>s. dayDir s = d) fs @ post
           \<and> (\<forall>s \<in> set pre \<union> set post. dayDir s \<noteq> d)"
proof -
  from assms(1) show "sorted (map (\<lambda>s. dayOrderOf (dayDir s)) fs)"
    by (auto simp: scanWeek_def Let_def split: option.splits if_splits sum.splits)
  from scanWeek_blocks [OF assms(1)] obtain bs where fs: "fs = concat bs"
    and l: "list_all2 (\<lambda>d b. (\<forall>s \<in> set b. dayDir s = d) \<and> sorted (map fileName b))
                (sort_key dayOrderOf (categoryDirs wn)) bs"
    by blast
  from l have l1: "list_all2 (\<lambda>d b. \<forall>s \<in> set b. dayDir s = d) (sort_key dayOrderOf (categoryDirs wn)) bs"
    by (rule list_all2_mono) simp
  from l have l2: "\<forall>b \<in> set bs. sorted (map fileName b)"
    by (auto simp: list_all2_conv_all_nth in_set_conv_nth)
  have "distinct (categoryDirs wn)"
  proof (cases wn)
    case (File s b) then show ?thesis by (simp add: categoryDirs_def)
  next
    case (Dir s b es)
    with assms(2) have "distinct (map fst es)" by simp
    then have "distinct (map fst (filter (\<lambda>e. isDirectory (snd e) \<and> isDayDirectory (fst e)) es))"
      by (rule distinct_map_filter)
    with Dir show ?thesis by (simp add: categoryDirs_def)
  qed
  then have dist: "distinct (sort_key dayOrderOf (categoryDirs wn))" by simp
  from l1 dist show "\<exists>pre post. fs = pre @ filter (\<lambda>s. dayDir s = d) fs @ post
           \<and> (\<forall>s \<in> set pre \<union> set post. dayDir s \<noteq> d)"
    unfolding fs by (rule filter_concat_together)
  from l1 dist have "filter (\<lambda>s. dayDir s = d) (concat bs) = []
                \<or> filter (\<lambda>s. dayDir s = d) (concat bs) \<in> set bs"
    by (rule filter_concat_block)
  with l2 show "sorted (map fileName (filter (\<lambda>s. dayDir s = d) fs))"
    unfolding fs by auto
  show "\<forall>s \<in> set fs. isDayDirectory (dayDir s)"
  proof
    fix s assume "s \<in> set fs"
    then obtain b where b: "b \<in> set bs" "s \<in> set b" unfolding fs by auto
    then obtain i where i: "i < length bs" "bs ! i = b" by (auto simp: in_set_conv_nth)
    with l1 b have "dayDir s = sort_key dayOrderOf (categoryDirs wn) ! i"
      and "i < length (sort_key dayOrderOf (categoryDirs wn))"
      by (auto simp: list_all2_conv_all_nth)
    then have "dayDir s \<in> set (sort_key dayOrderOf (categoryDirs wn))"
      by (metis nth_mem)
    then have "dayDir s \<in> set (categoryDirs wn)" by simp
    then show "isDayDirectory (dayDir s)"
      by (auto simp: categoryDirs_def split: option.splits)
  qed
qed

lemma category_then_name_sorted:
  assumes a: "sorted (map (\<lambda>s. dayOrderOf (dayDir s)) fs)"
    and b: "\<And>d. sorted (map fileName (filter (\<lambda>s. dayDir s = d) fs))"
    and c: "\<forall>s \<in> set fs. isDayDirectory (dayDir s)"
    and u: "\<forall>s \<in> set fs. \<forall>t \<in> set fs.
              normalizeDay (dayDir s) = normalizeDay (dayDir t) \<longrightarrow> dayDir s = dayDir t"
  shows "sorted_wrt category_then_name fs"
  unfolding sorted_wrt_iff_nth_less
proof (intro allI impI)
  fix i j assume ij: "i < j" "j < length fs"
  then have mem: "fs ! i \<in> set fs" "fs ! j \<in> set fs" by auto
  from a ij have le: "dayOrderOf (dayDir (fs ! i)) \<le> dayOrderOf (dayDir (fs ! j))"
    using sorted_nth_mono [of "map (\<lambda>s. dayOrderOf (dayDir s)) fs" i j] by simp
  show "category_then_name (fs ! i) (fs ! j)"
  proof (cases "dayOrderOf (dayDir (fs ! i)) = dayOrderOf (dayDir (fs ! j))")
    case False
    with le show ?thesis by (simp add: category_then_name_def)
  next
    case True
    with c mem have "normalizeDay (dayDir (fs ! i)) = normalizeDay (dayDir (fs ! j))"
      by (auto intro: dayOrderOf_day_directory)
    with u mem have same: "dayDir (fs ! j) = dayDir (fs ! i)" by auto
    have "sorted_wrt (\<lambda>x y. fileName x \<le> fileName y) (filter (\<lambda>s. dayDir s = dayDir (fs ! i)) fs)"
      using b [of "dayDir (fs ! i)"] by (simp add: sorted_map)
    then have "fileName (fs ! i) \<le> fileName (fs ! j)"
      using sorted_wrt_filter_nth [of "\<lambda>x y. fileName x \<le> fileName y"
              "\<lambda>s. dayDir s = dayDir (fs ! i)" fs i j] ij same
      by simp
    with True show ?thesis by (simp add: category_then_name_def)
  qed
qed


lemma dayOrderOf_labels:
  "map dayOrderOf DayOfWeek_values = [1, 2, 3, 4, 5, 6, 7]"
  by (simp add: dayOrderOf_def dayOrder_def normalizeDay_def DayOfWeek_defs string_defs)




section \<open>Time values and the calendar\<close>

subsection \<open>Years\<close>

lemma div_bounds:
  fixes a k :: int
  assumes "0 < k"
  shows "k * (a div k) \<le> a" and "a < k * (a div k) + k"
proof -
  have "a = k * (a div k) + a mod k" by simp
  moreover have "0 \<le> a mod k" "a mod k < k" using assms by simp_all
  ultimately show "k * (a div k) \<le> a" and "a < k * (a div k) + k" by linarith+
qed

lemma div_step:
  fixes a k :: int
  assumes "1 < k"
  shows "(a + 1) div k = a div k + (if (a + 1) mod k = 0 then 1 else 0)"
proof -
  have a: "a = k * (a div k) + a mod k" by simp
  have r: "0 \<le> a mod k" "a mod k < k" using assms by simp_all
  show ?thesis
  proof (cases "a mod k + 1 < k")
    case True
    have e: "a + 1 = k * (a div k) + (a mod k + 1)" using a by linarith
    have "(a + 1) div k = a div k"
      using e r True by (intro int_div_pos_eq [where r = "a mod k + 1"]) auto
    moreover have "(a + 1) mod k = a mod k + 1"
      using e r True by (intro int_mod_pos_eq [where q = "a div k"]) auto
    ultimately show ?thesis using r by simp
  next
    case False
    with r have m: "a mod k = k - 1" by linarith
    have e: "a + 1 = k * (a div k + 1) + 0" using a m by (simp add: algebra_simps)
    have "(a + 1) div k = a div k + 1"
      using e assms by (intro int_div_pos_eq [where r = 0]) auto
    moreover have "(a + 1) mod k = 0"
      using e assms by (intro int_mod_pos_eq [where q = "a div k + 1"]) auto
    ultimately show ?thesis by simp
  qed
qed


lemma mod_shift:
  fixes y :: int
  shows "(y - 1968) mod 4 = y mod 4" "(y - 1900) mod 100 = y mod 100"
    "(y - 1600) mod 400 = y mod 400"
proof -
  have "y - 1968 = y + 4 * (- 492)" "y - 1900 = y + 100 * (- 19)" "y - 1600 = y + 400 * (- 4)"
    by simp_all
  then show "(y - 1968) mod 4 = y mod 4" "(y - 1900) mod 100 = y mod 100"
    "(y - 1600) mod 400 = y mod 400"
    by (simp_all only: mod_mult_self2)
qed

lemma DayFromYear_Suc: "DayFromYear (y + 1) = DayFromYear y + DaysInYear y"
proof -
  have a: "(y + 1 - 1969) div 4 = (y - 1969) div 4 + (if y mod 4 = 0 then 1 else 0)"
    using div_step [of 4 "y - 1969"] mod_shift(1) [of y] by (simp add: algebra_simps)
  have b: "(y + 1 - 1901) div 100 = (y - 1901) div 100 + (if y mod 100 = 0 then 1 else 0)"
    using div_step [of 100 "y - 1901"] mod_shift(2) [of y] by (simp add: algebra_simps)
  have c: "(y + 1 - 1601) div 400 = (y - 1601) div 400 + (if y mod 400 = 0 then 1 else 0)"
    using div_step [of 400 "y - 1601"] mod_shift(3) [of y] by (simp add: algebra_simps)
  have d4: "y mod 4 = 0" if "y mod 100 = 0"
  proof -
    have "(4::int) dvd 100" by simp
    then have "y mod 100 mod 4 = y mod 4" by (rule mod_mod_cancel)
    with that show ?thesis by simp
  qed
  have d100: "y mod 100 = 0" if "y mod 400 = 0"
  proof -
    have "(100::int) dvd 400" by simp
    then have "y mod 400 mod 100 = y mod 100" by (rule mod_mod_cancel)
    with that show ?thesis by simp
  qed
  show ?thesis
    unfolding DayFromYear_def DaysInYear_def a b c
    using d4 d100 by auto
qed


lemma DaysInYear_bounds: "365 \<le> DaysInYear y" "DaysInYear y \<le> 366"
  by (simp_all add: DaysInYear_def)

lemma DayFromYear_less: "DayFromYear y < DayFromYear (y + 1)"
  using DaysInYear_bounds(1) [of y] by (simp add: DayFromYear_Suc)

lemma DayFromYear_mono: "y \<le> y' \<Longrightarrow> DayFromYear y \<le> DayFromYear y'"
proof (induction y' rule: int_ge_induct)
  case base
  show ?case by simp
next
  case (step i)
  then show ?case using DayFromYear_less [of i] by linarith
qed

lemma DayFromYear_lower: "400 * DayFromYear y \<le> 146097 * (y - 1970) + 593"
proof -
  define q4 where "q4 = (y - 1969) div 4"
  define q100 where "q100 = (y - 1901) div 100"
  define q400 where "q400 = (y - 1601) div 400"
  have b: "4 * q4 \<le> y - 1969" "y - 1901 < 100 * q100 + 100" "400 * q400 \<le> y - 1601"
    unfolding q4_def q100_def q400_def by (simp_all add: div_bounds)
  have "400 * q4 \<le> 100 * (y - 1969)" using b(1) by simp
  moreover have "4 * (y - 1901) < 400 * q100 + 400" using b(2) by simp
  moreover have "400 * DayFromYear y = 146000 * (y - 1970) + 400 * q4 - 400 * q100 + 400 * q400"
    by (simp add: DayFromYear_def q4_def q100_def q400_def)
  ultimately show ?thesis using b(3) by simp
qed

lemma DayFromYear_upper: "146097 * (y - 1970) - 607 \<le> 400 * DayFromYear y"
proof -
  define q4 where "q4 = (y - 1969) div 4"
  define q100 where "q100 = (y - 1901) div 100"
  define q400 where "q400 = (y - 1601) div 400"
  have b: "y - 1969 < 4 * q4 + 4" "100 * q100 \<le> y - 1901" "y - 1601 < 400 * q400 + 400"
    unfolding q4_def q100_def q400_def by (simp_all add: div_bounds)
  have "100 * (y - 1969) < 400 * q4 + 400" using b(1) by simp
  moreover have "400 * q100 \<le> 4 * (y - 1901)" using b(2) by simp
  moreover have "400 * DayFromYear y = 146000 * (y - 1970) + 400 * q4 - 400 * q100 + 400 * q400"
    by (simp add: DayFromYear_def q4_def q100_def q400_def)
  ultimately show ?thesis using b(3) by simp
qed

lemma YearFromDay_spec:
  "DayFromYear (YearFromDay d) \<le> d \<and> d < DayFromYear (YearFromDay d + 1)"
proof -
  define x where "x = (400 * d) div 146097"
  define y where "y = 1970 + x"
  have x: "146097 * x \<le> 400 * d" "400 * d < 146097 * x + 146097"
    unfolding x_def by (simp_all add: div_bounds)
  have lo: "DayFromYear (y - 1) \<le> d"
    using DayFromYear_lower [of "y - 1"] x unfolding y_def by simp
  have hi: "d < DayFromYear (y + 2)"
    using DayFromYear_upper [of "y + 2"] x unfolding y_def by simp
  have yd: "YearFromDay d =
      (if DayFromYear (y + 1) \<le> d then y + 1 else if DayFromYear y \<le> d then y else y - 1)"
    by (simp add: YearFromDay_def y_def x_def Let_def)
  show ?thesis
    unfolding yd using lo hi by (auto simp: algebra_simps)
qed

lemma YearFromDay_unique:
  assumes "DayFromYear y \<le> d" and "d < DayFromYear (y + 1)"
  shows "YearFromDay d = y"
proof (rule ccontr)
  assume ne: "YearFromDay d \<noteq> y"
  let ?z = "YearFromDay d"
  from YearFromDay_spec [of d] have z: "DayFromYear ?z \<le> d" "d < DayFromYear (?z + 1)" by simp_all
  from ne consider "?z + 1 \<le> y" | "y + 1 \<le> ?z" by linarith
  then show False
  proof cases
    case 1
    then have "DayFromYear (?z + 1) \<le> DayFromYear y" by (rule DayFromYear_mono)
    with z assms show False by linarith
  next
    case 2
    then have "DayFromYear (y + 1) \<le> DayFromYear ?z" by (rule DayFromYear_mono)
    with z assms show False by linarith
  qed
qed

lemma YearFromDay_largest: "DayFromYear y \<le> d \<longleftrightarrow> y \<le> YearFromDay d"
proof
  assume a: "DayFromYear y \<le> d"
  show "y \<le> YearFromDay d"
  proof (rule ccontr)
    assume "\<not> y \<le> YearFromDay d"
    then have "YearFromDay d + 1 \<le> y" by simp
    then have "DayFromYear (YearFromDay d + 1) \<le> DayFromYear y" by (rule DayFromYear_mono)
    with a YearFromDay_spec [of d] show False by linarith
  qed
next
  assume "y \<le> YearFromDay d"
  then have "DayFromYear y \<le> DayFromYear (YearFromDay d)" by (rule DayFromYear_mono)
  with YearFromDay_spec [of d] show "DayFromYear y \<le> d" by linarith
qed

lemma mult_le_iff_le_div:
  fixes a t :: int
  shows "86400000 * a \<le> t \<longleftrightarrow> a \<le> t div 86400000"
proof -
  define q where "q = t div 86400000"
  have "86400000 * q \<le> t" "t < 86400000 * q + 86400000"
    unfolding q_def by (simp_all add: div_bounds)
  then have "86400000 * a \<le> t \<longleftrightarrow> a \<le> q" by linarith
  then show ?thesis by (simp add: q_def)
qed

lemma TimeFromYear_le_iff: "TimeFromYear y \<le> t \<longleftrightarrow> DayFromYear y \<le> Day t"
  by (simp add: TimeFromYear_def Day_def msPerDay_def mult_le_iff_le_div)

lemma YearFromTime_largest: "TimeFromYear y \<le> t \<longleftrightarrow> y \<le> YearFromTime t"
  by (simp add: TimeFromYear_le_iff YearFromDay_largest YearFromTime_def)

subsection \<open>Months and days\<close>

lemma DaysInYear_leap: "DaysInYear y = (if leap_year y then 366 else 365)"
  by (auto simp: DaysInYear_def leap_year_def)

lemma InLeapYear_leap: "InLeapYear t = (if leap_year (YearFromTime t) then 1 else 0)"
  by (simp add: InLeapYear_def DaysInYear_leap)

lemma DayWithinYear_bounds:
  "0 \<le> DayWithinYear t" "DayWithinYear t < 365 + InLeapYear t"
proof -
  from YearFromDay_spec [of "Day t"]
  have "DayFromYear (YearFromTime t) \<le> Day t" "Day t < DayFromYear (YearFromTime t + 1)"
    by (simp_all add: YearFromTime_def)
  then show "0 \<le> DayWithinYear t" "DayWithinYear t < 365 + InLeapYear t"
    by (auto simp: DayWithinYear_def DayFromYear_Suc DaysInYear_leap InLeapYear_leap split: if_splits)
qed

lemma InLeapYear_01: "InLeapYear t = 0 \<or> InLeapYear t = 1"
  by (simp add: InLeapYear_def)

lemma MonthFromTime_range: "0 \<le> MonthFromTime t" "MonthFromTime t \<le> 11"
  by (simp_all add: MonthFromTime_def Let_def)

lemma month_date_roundtrip:
  "daysBeforeMonth (MonthFromTime t) (InLeapYear t) + DateFromTime t - 1 = DayWithinYear t"
  unfolding DateFromTime_def MonthFromTime_def daysBeforeMonth_def Let_def
  by simp


lemma Day_add_day: "Day (t + msPerDay) = Day t + 1"
  by (simp add: Day_def msPerDay_def)

lemma ymd_next: "ymd (t + msPerDay) = next_day (ymd t)"
proof -
  let ?Y = "YearFromTime t" and ?d = "DayWithinYear t" and ?l = "InLeapYear t"
  let ?t' = "t + msPerDay"
  have D: "Day ?t' = Day t + 1" by (rule Day_add_day)
  have b: "0 \<le> ?d" "?d < 365 + ?l" by (rule DayWithinYear_bounds)+
  have l01: "?l = 0 \<or> ?l = 1" by (rule InLeapYear_01)
  have lp: "leap_year ?Y \<longleftrightarrow> ?l = 1" by (simp add: InLeapYear_leap)
  have spec: "DayFromYear ?Y \<le> Day t" "Day t < DayFromYear (?Y + 1)"
    using YearFromDay_spec [of "Day t"] by (simp_all add: YearFromTime_def)
  have next_year: "DayFromYear (?Y + 1) = DayFromYear ?Y + 365 + ?l"
    by (simp add: DayFromYear_Suc DaysInYear_leap InLeapYear_leap)
  show ?thesis
  proof (cases "?d + 1 < 365 + ?l")
    case True
    have "YearFromDay (Day t + 1) = ?Y"
      using spec True next_year by (intro YearFromDay_unique) (simp_all add: DayWithinYear_def)
    then have Y': "YearFromTime ?t' = ?Y"
      by (subst YearFromTime_def) (simp only: D)
    have d': "DayWithinYear ?t' = ?d + 1"
      by (simp add: DayWithinYear_def Y' D)
    have l': "InLeapYear ?t' = ?l"
      by (simp add: InLeapYear_def Y')
    from b l01 True consider
        (i0) "0 \<le> ?d" "?d + 1 < 31"
      | (e0) "?d + 1 = 31"
      | (i1) "31 \<le> ?d" "?d + 1 < 59 + ?l"
      | (e1) "?d + 1 = 59 + ?l"
      | (i2) "59 + ?l \<le> ?d" "?d + 1 < 90 + ?l"
      | (e2) "?d + 1 = 90 + ?l"
      | (i3) "90 + ?l \<le> ?d" "?d + 1 < 120 + ?l"
      | (e3) "?d + 1 = 120 + ?l"
      | (i4) "120 + ?l \<le> ?d" "?d + 1 < 151 + ?l"
      | (e4) "?d + 1 = 151 + ?l"
      | (i5) "151 + ?l \<le> ?d" "?d + 1 < 181 + ?l"
      | (e5) "?d + 1 = 181 + ?l"
      | (i6) "181 + ?l \<le> ?d" "?d + 1 < 212 + ?l"
      | (e6) "?d + 1 = 212 + ?l"
      | (i7) "212 + ?l \<le> ?d" "?d + 1 < 243 + ?l"
      | (e7) "?d + 1 = 243 + ?l"
      | (i8) "243 + ?l \<le> ?d" "?d + 1 < 273 + ?l"
      | (e8) "?d + 1 = 273 + ?l"
      | (i9) "273 + ?l \<le> ?d" "?d + 1 < 304 + ?l"
      | (e9) "?d + 1 = 304 + ?l"
      | (i10) "304 + ?l \<le> ?d" "?d + 1 < 334 + ?l"
      | (e10) "?d + 1 = 334 + ?l"
      | (i11) "334 + ?l \<le> ?d" "?d + 1 < 365 + ?l"
      by atomize_elim arith
    then show ?thesis
    proof cases
      case i0
      with lp show ?thesis
        unfolding ymd_def Y' MonthFromTime_def DateFromTime_def Let_def d' l'
        using l01 by (elim disjE) (simp_all add: days_in_month_def)
    next
      case e0
      with lp show ?thesis
        unfolding ymd_def Y' MonthFromTime_def DateFromTime_def Let_def d' l'
        using l01 by (elim disjE) (simp_all add: days_in_month_def)
    next
      case i1
      with lp show ?thesis
        unfolding ymd_def Y' MonthFromTime_def DateFromTime_def Let_def d' l'
        using l01 by (elim disjE) (simp_all add: days_in_month_def)
    next
      case e1
      with lp show ?thesis
        unfolding ymd_def Y' MonthFromTime_def DateFromTime_def Let_def d' l'
        using l01 by (elim disjE) (simp_all add: days_in_month_def)
    next
      case i2
      with lp show ?thesis
        unfolding ymd_def Y' MonthFromTime_def DateFromTime_def Let_def d' l'
        using l01 by (elim disjE) (simp_all add: days_in_month_def)
    next
      case e2
      with lp show ?thesis
        unfolding ymd_def Y' MonthFromTime_def DateFromTime_def Let_def d' l'
        using l01 by (elim disjE) (simp_all add: days_in_month_def)
    next
      case i3
      with lp show ?thesis
        unfolding ymd_def Y' MonthFromTime_def DateFromTime_def Let_def d' l'
        using l01 by (elim disjE) (simp_all add: days_in_month_def)
    next
      case e3
      with lp show ?thesis
        unfolding ymd_def Y' MonthFromTime_def DateFromTime_def Let_def d' l'
        using l01 by (elim disjE) (simp_all add: days_in_month_def)
    next
      case i4
      with lp show ?thesis
        unfolding ymd_def Y' MonthFromTime_def DateFromTime_def Let_def d' l'
        using l01 by (elim disjE) (simp_all add: days_in_month_def)
    next
      case e4
      with lp show ?thesis
        unfolding ymd_def Y' MonthFromTime_def DateFromTime_def Let_def d' l'
        using l01 by (elim disjE) (simp_all add: days_in_month_def)
    next
      case i5
      with lp show ?thesis
        unfolding ymd_def Y' MonthFromTime_def DateFromTime_def Let_def d' l'
        using l01 by (elim disjE) (simp_all add: days_in_month_def)
    next
      case e5
      with lp show ?thesis
        unfolding ymd_def Y' MonthFromTime_def DateFromTime_def Let_def d' l'
        using l01 by (elim disjE) (simp_all add: days_in_month_def)
    next
      case i6
      with lp show ?thesis
        unfolding ymd_def Y' MonthFromTime_def DateFromTime_def Let_def d' l'
        using l01 by (elim disjE) (simp_all add: days_in_month_def)
    next
      case e6
      with lp show ?thesis
        unfolding ymd_def Y' MonthFromTime_def DateFromTime_def Let_def d' l'
        using l01 by (elim disjE) (simp_all add: days_in_month_def)
    next
      case i7
      with lp show ?thesis
        unfolding ymd_def Y' MonthFromTime_def DateFromTime_def Let_def d' l'
        using l01 by (elim disjE) (simp_all add: days_in_month_def)
    next
      case e7
      with lp show ?thesis
        unfolding ymd_def Y' MonthFromTime_def DateFromTime_def Let_def d' l'
        using l01 by (elim disjE) (simp_all add: days_in_month_def)
    next
      case i8
      with lp show ?thesis
        unfolding ymd_def Y' MonthFromTime_def DateFromTime_def Let_def d' l'
        using l01 by (elim disjE) (simp_all add: days_in_month_def)
    next
      case e8
      with lp show ?thesis
        unfolding ymd_def Y' MonthFromTime_def DateFromTime_def Let_def d' l'
        using l01 by (elim disjE) (simp_all add: days_in_month_def)
    next
      case i9
      with lp show ?thesis
        unfolding ymd_def Y' MonthFromTime_def DateFromTime_def Let_def d' l'
        using l01 by (elim disjE) (simp_all add: days_in_month_def)
    next
      case e9
      with lp show ?thesis
        unfolding ymd_def Y' MonthFromTime_def DateFromTime_def Let_def d' l'
        using l01 by (elim disjE) (simp_all add: days_in_month_def)
    next
      case i10
      with lp show ?thesis
        unfolding ymd_def Y' MonthFromTime_def DateFromTime_def Let_def d' l'
        using l01 by (elim disjE) (simp_all add: days_in_month_def)
    next
      case e10
      with lp show ?thesis
        unfolding ymd_def Y' MonthFromTime_def DateFromTime_def Let_def d' l'
        using l01 by (elim disjE) (simp_all add: days_in_month_def)
    next
      case i11
      with lp show ?thesis
        unfolding ymd_def Y' MonthFromTime_def DateFromTime_def Let_def d' l'
        using l01 by (elim disjE) (simp_all add: days_in_month_def)
    qed
  next
    case False
    with b have last: "?d = 364 + ?l" by simp
    then have Dt: "Day t + 1 = DayFromYear (?Y + 1)"
      using next_year by (simp add: DayWithinYear_def)
    have "YearFromDay (DayFromYear (?Y + 1)) = ?Y + 1"
      using DayFromYear_less [of "?Y + 1"] by (intro YearFromDay_unique) simp_all
    then have Y': "YearFromTime ?t' = ?Y + 1"
      by (subst YearFromTime_def) (simp only: D Dt)
    have d': "DayWithinYear ?t' = 0"
      by (simp add: DayWithinYear_def Y' D Dt)
    have "MonthFromTime ?t' = 0" "DateFromTime ?t' = 1"
      using InLeapYear_01 [of ?t'] by (auto simp: MonthFromTime_def DateFromTime_def Let_def d')
    moreover have "MonthFromTime t = 11" "DateFromTime t = 31"
      using l01 by (auto simp: MonthFromTime_def DateFromTime_def Let_def last)
    ultimately show ?thesis
      by (simp add: ymd_def Y' days_in_month_def)
  qed
qed

lemma DateFromTime_range:
  "1 \<le> DateFromTime t"
  "DateFromTime t \<le> days_in_month (YearFromTime t) (MonthFromTime t + 1)"
proof -
  let ?d = "DayWithinYear t" and ?l = "InLeapYear t"
  have b: "0 \<le> ?d" "?d < 365 + ?l" by (rule DayWithinYear_bounds)+
  have l01: "?l = 0 \<or> ?l = 1" by (rule InLeapYear_01)
  have lp: "leap_year (YearFromTime t) \<longleftrightarrow> ?l = 1" by (simp add: InLeapYear_leap)
  show "1 \<le> DateFromTime t"
    using b l01 unfolding DateFromTime_def MonthFromTime_def Let_def
    by (elim disjE) (simp_all)
  show "DateFromTime t \<le> days_in_month (YearFromTime t) (MonthFromTime t + 1)"
    using b l01 lp unfolding DateFromTime_def MonthFromTime_def Let_def
    by (elim disjE) (simp_all add: days_in_month_def)
qed

lemma prev_next_day:
  assumes "1 \<le> m" "m \<le> 12" "1 \<le> d" "d \<le> days_in_month y m"
  shows "prev_day (next_day (y, m, d)) = (y, m, d)"
proof -
  have "1 \<le> days_in_month y m" by (simp add: days_in_month_def)
  moreover have "m = 12 \<Longrightarrow> days_in_month y m = 31" by (simp add: days_in_month_def)
  ultimately show ?thesis using assms by auto
qed

lemma ymd_prev: "ymd (t - msPerDay) = prev_day (ymd t)"
proof -
  let ?s = "t - msPerDay"
  have "ymd t = next_day (ymd ?s)" using ymd_next [of ?s] by simp
  moreover have "prev_day (next_day (ymd ?s)) = ymd ?s"
    unfolding ymd_def
    using MonthFromTime_range [of ?s] DateFromTime_range [of ?s]
    by (intro prev_next_day) simp_all
  ultimately show ?thesis by simp
qed

lemma ymd_plus_nat: "ymd (t + int k * msPerDay) = (next_day ^^ k) (ymd t)"
proof (induction k)
  case 0 show ?case by simp
next
  case (Suc k)
  have "t + int (Suc k) * msPerDay = (t + int k * msPerDay) + msPerDay"
    by (simp add: algebra_simps)
  then have "ymd (t + int (Suc k) * msPerDay) = next_day (ymd (t + int k * msPerDay))"
    by (simp only: ymd_next)
  then show ?case by (simp only: Suc.IH funpow.simps o_apply)
qed

lemma ymd_minus_nat: "ymd (t - int k * msPerDay) = (prev_day ^^ k) (ymd t)"
proof (induction k)
  case 0 show ?case by simp
next
  case (Suc k)
  have "t - int (Suc k) * msPerDay = (t - int k * msPerDay) - msPerDay"
    by (simp add: algebra_simps)
  then have "ymd (t - int (Suc k) * msPerDay) = prev_day (ymd (t - int k * msPerDay))"
    by (simp only: ymd_prev)
  then show ?case by (simp only: Suc.IH funpow.simps o_apply)
qed

lemma ymd_plus_days: "ymd (t + k * msPerDay) = plus_days (ymd t) k"
proof (cases "0 \<le> k")
  case True
  then show ?thesis using ymd_plus_nat [of t "nat k"] by (simp add: plus_days_def)
next
  case False
  then show ?thesis using ymd_minus_nat [of t "nat (- k)"] by (simp add: plus_days_def)
qed

subsection \<open>The start date of a week\<close>

lemma MakeDay_roundtrip:
  "MakeDay (YearFromTime t) (MonthFromTime t) (DateFromTime t + k) = Day t + k"
proof -
  have m: "MonthFromTime t div 12 = 0" "MonthFromTime t mod 12 = MonthFromTime t"
    using MonthFromTime_range [of t] by simp_all
  have "MakeDay (YearFromTime t) (MonthFromTime t) (DateFromTime t + k)
        = DayFromYear (YearFromTime t) + daysBeforeMonth (MonthFromTime t) (InLeapYear t)
          + (DateFromTime t + k) - 1"
    by (simp add: MakeDay_def m InLeapYear_def Let_def)
  also have "\<dots> = DayFromYear (YearFromTime t) + DayWithinYear t + k"
    using month_date_roundtrip [of t] by simp
  also have "\<dots> = Day t + k" by (simp add: DayWithinYear_def)
  finally show ?thesis .
qed

lemma MakeDate_shift: "MakeDate (Day t + k) (TimeWithinDay t) = t + k * msPerDay"
proof -
  have "t = msPerDay * (t div msPerDay) + t mod msPerDay" by simp
  then show ?thesis
    by (simp add: MakeDate_def Day_def TimeWithinDay_def algebra_simps)
qed

lemma setDate_shift:
  "setDate tz (Some t0) (DateFromTime (LocalTime tz t0) + k)
     = TimeClip (UTC tz (LocalTime tz t0 + k * msPerDay))"
  by (simp add: setDate_def Let_def MakeDay_roundtrip MakeDate_shift)

text \<open>With a fixed offset the two conversions cancel.\<close>

lemma fixed_offset_cancel: "UTC (fixed_offset ms) (LocalTime (fixed_offset ms) t + s) = t + s"
  by (simp add: UTC_def LocalTime_def fixed_offset_def)

lemma steady_fixed_offset: "steady (fixed_offset ms)"
  by (simp add: steady_def fixed_offset_def msPerDay_def)

lemma steady_bounds:
  assumes "steady tz"
  shows "t + s - 2 * msPerDay < UTC tz (LocalTime tz t + s)"
    and "UTC tz (LocalTime tz t + s) < t + s + 2 * msPerDay"
proof -
  from assms have "\<bar>tz t True - tz (t + tz t True + s) False\<bar> < 2 * msPerDay"
    unfolding steady_def by blast
  then show "t + s - 2 * msPerDay < UTC tz (LocalTime tz t + s)"
    and "UTC tz (LocalTime tz t + s) < t + s + 2 * msPerDay"
    by (simp_all add: UTC_def LocalTime_def)
qed

lemma Date_2024_01_01_value: "Date_2024_01_01 = Some 1704067200000"
  by (simp add: Date_2024_01_01_def MakeDate_def MakeDay_def DaysInYear_def DayFromYear_def
        daysBeforeMonth_def TimeClip_def msPerDay_def)

lemma calculateWeekStartDate_zone:
  "calculateWeekStartDate tz weekDir =
     (case toISOString (TimeClip (UTC tz (LocalTime tz 1704067200000
                          + (extractWeekNumber weekDir - 1) * 7 * msPerDay))) of
        Inl e \<Rightarrow> Inl e | Inr s \<Rightarrow> Inr (split_T_0 s))"
  by (simp add: calculateWeekStartDate_def Let_def Date_2024_01_01_value getDate_def setDate_shift)

lemma calculateWeekStartDate_closed:
  "calculateWeekStartDate (fixed_offset ms) weekDir =
     (case toISOString (TimeClip (1704067200000 + (extractWeekNumber weekDir - 1) * 7 * msPerDay)) of
        Inl e \<Rightarrow> Inl e | Inr s \<Rightarrow> Inr (split_T_0 s))"
  by (simp only: calculateWeekStartDate_zone fixed_offset_cancel)

text \<open>The only error of the date is the range error of \<^verbatim>\<open>toISOString\<close>.\<close>

lemma calculateWeekStartDate_error:
  "calculateWeekStartDate tz weekDir = Inl e \<Longrightarrow> e = InvalidTimeValue"
  by (cases "TimeClip (UTC tz (LocalTime tz 1704067200000
                          + (extractWeekNumber weekDir - 1) * 7 * msPerDay))")
     (simp_all add: calculateWeekStartDate_zone toISOString_def)

lemma ymd_epoch: "ymd 1704067200000 = epoch"
  by (simp add: ymd_def epoch_def YearFromTime_def YearFromDay_def Day_def msPerDay_def
        DayFromYear_def MonthFromTime_def DateFromTime_def DayWithinYear_def InLeapYear_def
        DaysInYear_def Let_def)

lemma digit_char_not_T: "0 \<le> d \<Longrightarrow> d < 10 \<Longrightarrow> digit_char d \<noteq> CHR ''T''"
proof -
  assume "0 \<le> d" "d < 10"
  then have "d = 0 \<or> d = 1 \<or> d = 2 \<or> d = 3 \<or> d = 4 \<or> d = 5 \<or> d = 6 \<or> d = 7
             \<or> d = 8 \<or> d = 9"
    by arith
  then show ?thesis
    by (elim disjE) (simp_all add: digit_char_def)
qed

lemma pad_no_T: "CHR ''T'' \<notin> set (pad k n)"
proof (induction k arbitrary: n)
  case 0 show ?case by simp
next
  case (Suc k)
  have "digit_char (n mod 10) \<noteq> CHR ''T''"
    by (rule digit_char_not_T) simp_all
  with Suc show ?case by auto
qed

lemma isoYear_no_T: "CHR ''T'' \<notin> set (isoYear y)"
  by (simp add: isoYear_def pad_no_T)

lemma toISOString_date:
  "toISOString (Some t) = Inr s \<Longrightarrow>
   split_T_0 s = isoYear (YearFromTime t) @ ''-'' @ pad 2 (MonthFromTime t + 1) @ ''-''
                 @ pad 2 (DateFromTime t)"
proof -
  assume "toISOString (Some t) = Inr s"
  then have s: "s = (isoYear (YearFromTime t) @ ''-'' @ pad 2 (MonthFromTime t + 1) @ ''-''
               @ pad 2 (DateFromTime t)) @ CHR ''T'' # (pad 2 (HourFromTime t) @ '':''
               @ pad 2 (MinFromTime t) @ '':'' @ pad 2 (SecFromTime t) @ ''.''
               @ pad 3 (msFromTime t) @ ''Z'')"
    by (simp add: toISOString_def)
  have "CHR ''T'' \<notin> set (isoYear (YearFromTime t) @ ''-'' @ pad 2 (MonthFromTime t + 1) @ ''-''
               @ pad 2 (DateFromTime t))"
    using isoYear_no_T pad_no_T by simp
  then show ?thesis
    unfolding s split_T_0_def by (subst takeWhile_append2) auto
qed

lemma digit_value_nonneg: "0 \<le> digit_value c"
  by (auto simp: digit_value_def split: option.splits if_splits)

lemma decimal_value_nonneg: "0 \<le> decimal_value s"
proof -
  have "0 \<le> a \<Longrightarrow> 0 \<le> foldl (\<lambda>n c. 10 * n + digit_value c) a s" for a
  proof (induction s arbitrary: a)
    case Nil then show ?case by simp
  next
    case (Cons c s)
    have "0 \<le> 10 * a + digit_value c" using Cons.prems digit_value_nonneg [of c] by simp
    then show ?case using Cons.IH by simp
  qed
  then show ?thesis by (simp add: decimal_value_def)
qed

lemma parseInt10_nonneg: "0 \<le> parseInt10 s"
  by (simp add: parseInt10_def toNumber_nonneg decimal_value_nonneg)

lemma extractWeekNumber_nonneg: "0 \<le> extractWeekNumber w"
  by (simp add: extractWeekNumber_def parseInt10_nonneg split: option.splits)

lemma TimeFromYear_0: "TimeFromYear 0 = - 62167219200000"
  by (simp add: TimeFromYear_def DayFromYear_def msPerDay_def)

lemma TimeFromYear_10000: "TimeFromYear 10000 = 253402300800000"
  by (simp add: TimeFromYear_def DayFromYear_def msPerDay_def)

lemma YearFromTime_four_digits:
  assumes "0 \<le> t" and "t < 253402300800000"
  shows "0 \<le> YearFromTime t" and "YearFromTime t \<le> 9999"
proof -
  have "TimeFromYear 0 \<le> t" using assms(1) by (simp add: TimeFromYear_0)
  then show "0 \<le> YearFromTime t" using YearFromTime_largest [of 0 t] by blast
  have "\<not> TimeFromYear 10000 \<le> t" using assms(2) by (simp add: TimeFromYear_10000)
  then have "\<not> 10000 \<le> YearFromTime t" using YearFromTime_largest [of 10000 t] by blast
  then show "YearFromTime t \<le> 9999" by simp
qed

lemma toISOString_Some: "\<exists>s. toISOString (Some t) = Inr s"
  by (simp add: toISOString_def)

lemma calculateWeekStartDate_ymd:
  assumes "u = UTC tz (LocalTime tz 1704067200000 + (extractWeekNumber w - 1) * 7 * msPerDay)"
    and "0 \<le> u" and "u < 253402300800000"
  shows "calculateWeekStartDate tz w = Inr (format_date (ymd u))"
proof -
  from assms(2,3) have clip: "TimeClip u = Some u" by (simp add: TimeClip_def)
  obtain s where s: "toISOString (Some u) = Inr s" using toISOString_Some by blast
  have y: "isoYear (YearFromTime u) = pad 4 (YearFromTime u)"
    using YearFromTime_four_digits [OF assms(2,3)] by (simp add: isoYear_def)
  have "split_T_0 s = format_date (ymd u)"
    using toISOString_date [OF s] by (simp add: y ymd_def)
  then show ?thesis
    unfolding calculateWeekStartDate_zone assms(1) [symmetric] clip s by simp
qed

lemma calculateWeekStartDate_in_range:
  assumes "extractWeekNumber w \<le> 416168"
  shows "calculateWeekStartDate (fixed_offset ms) w =
           Inr (format_date (plus_days epoch ((extractWeekNumber w - 1) * 7)))"
proof -
  define n where "n = extractWeekNumber w"
  define u where "u = 1704067200000 + (n - 1) * 7 * msPerDay"
  have n: "0 \<le> n" "n \<le> 416168"
    using assms extractWeekNumber_nonneg [of w] by (simp_all add: n_def)
  then have u: "0 \<le> u" "u < 253402300800000"
    by (simp_all add: u_def msPerDay_def)
  then have clip: "TimeClip u = Some u" by (simp add: TimeClip_def)
  obtain s where s: "toISOString (Some u) = Inr s" using toISOString_Some by blast
  have y: "isoYear (YearFromTime u) = pad 4 (YearFromTime u)"
    using YearFromTime_four_digits [OF u] by (simp add: isoYear_def)
  have "ymd u = plus_days (ymd 1704067200000) ((n - 1) * 7)"
    unfolding u_def using ymd_plus_days [of 1704067200000 "(n - 1) * 7"] by simp
  then have d: "ymd u = plus_days epoch ((n - 1) * 7)" by (simp add: ymd_epoch)
  have "split_T_0 s = format_date (ymd u)"
    using toISOString_date [OF s] by (simp add: y ymd_def)
  with d have "split_T_0 s = format_date (plus_days epoch ((n - 1) * 7))" by simp
  then show ?thesis
    unfolding calculateWeekStartDate_closed n_def [symmetric] u_def [symmetric] clip s
    by simp
qed

lemma calculateWeekStartDate_result:
  assumes "steady tz"
  shows "(14282898 \<le> extractWeekNumber w
            \<longrightarrow> calculateWeekStartDate tz w = Inl InvalidTimeValue)
       \<and> (extractWeekNumber w < 14282898
            \<longrightarrow> (\<exists>s. calculateWeekStartDate tz w = Inr s))"
proof -
  define n where "n = extractWeekNumber w"
  define u where "u = UTC tz (LocalTime tz 1704067200000 + (n - 1) * 7 * msPerDay)"
  have n: "0 \<le> n" using extractWeekNumber_nonneg [of w] by (simp add: n_def)
  have lo: "1704067200000 + (n - 1) * 7 * msPerDay - 2 * msPerDay < u"
    and hi: "u < 1704067200000 + (n - 1) * 7 * msPerDay + 2 * msPerDay"
    unfolding u_def using assms by (rule steady_bounds)+
  have c: "calculateWeekStartDate tz w =
     (case toISOString (TimeClip u) of Inl e \<Rightarrow> Inl e | Inr s \<Rightarrow> Inr (split_T_0 s))"
    unfolding calculateWeekStartDate_zone n_def u_def ..
  have big: "calculateWeekStartDate tz w = Inl InvalidTimeValue" if "14282898 \<le> n"
  proof -
    from that lo have "8640000000000000 < u" by (simp add: msPerDay_def)
    then have "TimeClip u = None" by (simp add: TimeClip_def)
    then show ?thesis by (simp add: c toISOString_def)
  qed
  have small: "\<exists>s. calculateWeekStartDate tz w = Inr s" if "n < 14282898"
  proof -
    from that n lo hi have "0 \<le> u" "u \<le> 8640000000000000" by (simp_all add: msPerDay_def)
    then have "TimeClip u = Some u" by (simp add: TimeClip_def)
    then show ?thesis by (simp add: c toISOString_def)
  qed
  from big small show ?thesis unfolding n_def by blast
qed

section \<open>Aggregation of a batch\<close>

lemma success_filter_Nil_iff: "filter success rs = [] \<longleftrightarrow> (\<forall>r \<in> set rs. \<not> success r)"
  by (simp add: filter_empty_conv)

lemma weekNumber_foldl [simp]: "weekNumber (foldl addResultToWeekData w rs) = weekNumber w"
  by (induction rs arbitrary: w) simp_all

lemma weekDate_foldl [simp]: "weekDate (foldl addResultToWeekData w rs) = weekDate w"
  by (induction rs arbitrary: w) simp_all

lemma processResults_cases:
  "processResults tz now rs =
     (if filter success rs = [] then Inl NoSuccessfulResults
      else case calculateWeekStartDate tz (weekName_of rs) of
             Inl e \<Rightarrow> Inl e
           | Inr wDate \<Rightarrow>
               Inr \<lparr>weeks =
                      [(foldl addResultToWeekData
                          \<lparr>weekNumber = extractWeekNumber (weekName_of rs), weekDate = wDate,
                           dailyData = [], weeklyData = []\<rparr> (filter success rs))
                       \<lparr>dailyData := sortDailyData (dailyData
                          (foldl addResultToWeekData
                             \<lparr>weekNumber = extractWeekNumber (weekName_of rs), weekDate = wDate,
                              dailyData = [], weeklyData = []\<rparr> (filter success rs)))\<rparr>],
                    metadata = \<lparr>totalWeeks = 1, totalScreenshots = length (filter success rs),
                                extractedAt = now\<rparr>\<rparr>)"
  by (simp add: processResults_def weekName_of_def Let_def split: sum.splits)

lemma processResults_empty_iff:
  "processResults tz now rs = Inl NoSuccessfulResults \<longleftrightarrow> (\<forall>r \<in> set rs. \<not> success r)"
proof (cases "filter success rs = []")
  case True
  then show ?thesis by (simp add: processResults_cases success_filter_Nil_iff)
next
  case False
  have "calculateWeekStartDate tz (weekName_of rs) \<noteq> Inl NoSuccessfulResults"
    using calculateWeekStartDate_error [of tz "weekName_of rs" NoSuccessfulResults] by auto
  with False show ?thesis
    by (auto simp: processResults_cases success_filter_Nil_iff split: sum.splits)
qed

lemma weekName_of_filter: "weekName_of (filter success rs) = weekName_of rs"
  by (simp add: weekName_of_def)

lemma processResults_successes_only:
  "processResults tz now rs = processResults tz now (filter success rs)"
proof -
  have ff: "filter success (filter success rs) = filter success rs" by simp
  show ?thesis
    by (simp only: processResults_cases [of tz now "filter success rs"] ff weekName_of_filter
          processResults_cases [of tz now rs])
qed

lemma processResults_Inr:
  assumes "processResults tz now rs = Inr out"
  shows "totalScreenshots (metadata out) = length (filter success rs)"
    and "totalWeeks (metadata out) = 1"
    and "\<exists>w. weeks out = [w] \<and> weekNumber w = extractWeekNumber (weekName_of rs)
             \<and> calculateWeekStartDate tz (weekName_of rs) = Inr (weekDate w)
             \<and> weeklyData w = weeklyData (foldl addResultToWeekData
                   \<lparr>weekNumber = extractWeekNumber (weekName_of rs), weekDate = weekDate w,
                    dailyData = [], weeklyData = []\<rparr> (filter success rs))
             \<and> dailyData w = sortDailyData (dailyData (foldl addResultToWeekData
                   \<lparr>weekNumber = extractWeekNumber (weekName_of rs), weekDate = weekDate w,
                    dailyData = [], weeklyData = []\<rparr> (filter success rs)))"
  using assms
  by (auto simp: processResults_cases split: if_splits sum.splits)

lemma processResults_returns:
  assumes "\<exists>r \<in> set rs. success r" and "steady tz"
  shows "(extractWeekNumber (weekName_of rs) < 14282898
            \<longrightarrow> (\<exists>out. processResults tz now rs = Inr out))
       \<and> (14282898 \<le> extractWeekNumber (weekName_of rs)
            \<longrightarrow> processResults tz now rs = Inl InvalidTimeValue)"
proof -
  from assms(1) have ne: "filter success rs \<noteq> []" by (simp add: filter_empty_conv)
  show ?thesis
    using calculateWeekStartDate_result [OF assms(2), of "weekName_of rs"] ne
    by (auto simp: processResults_cases)
qed

lemma match_week_digits_Some:
  "match_week_digits s = Some ds \<Longrightarrow> ds \<noteq> [] \<and> set ds \<subseteq> set s \<and> list_all isDigit ds"
proof (induction s)
  case Nil
  then show ?case by simp
next
  case (Cons c cs)
  show ?case
  proof (cases "toLowerCase (take 4 (c # cs)) = ''week''
                \<and> takeWhile isDigit (drop 4 (c # cs)) \<noteq> []")
    case True
    with Cons.prems have ds: "ds = takeWhile isDigit (drop 4 (c # cs))"
      by (simp only: match_week_digits.simps if_True) simp
    have "set (takeWhile isDigit (drop 4 (c # cs))) \<subseteq> set (c # cs)"
    proof
      fix x assume "x \<in> set (takeWhile isDigit (drop 4 (c # cs)))"
      then have "x \<in> set (drop 4 (c # cs))" by (rule set_takeWhileD [THEN conjunct1])
      then show "x \<in> set (c # cs)" by (rule in_set_dropD)
    qed
    moreover have "list_all isDigit (takeWhile isDigit (drop 4 (c # cs)))"
      by (auto simp: list_all_iff dest: set_takeWhileD)
    ultimately show ?thesis using True ds by simp
  next
    case False
    with Cons.prems have "match_week_digits cs = Some ds"
      by (simp only: match_week_digits.simps if_False)
    with Cons.IH show ?thesis by auto
  qed
qed

lemma extractWeekNumber_no_digit:
  assumes "\<forall>c \<in> set s. \<not> isDigit c"
  shows "extractWeekNumber s = 0"
proof (cases "match_week_digits s")
  case None
  then show ?thesis by (simp add: extractWeekNumber_def)
next
  case (Some ds)
  then have "ds \<noteq> []" "set ds \<subseteq> set s" "list_all isDigit ds"
    by (auto dest: match_week_digits_Some)
  then obtain c where "c \<in> set s" "isDigit c"
    by (cases ds) (auto simp: list_all_iff)
  with assms show ?thesis by blast
qed

lemma extractWeekNumber_week_digits:
  assumes "toLowerCase wk = ''week''" and "ds \<noteq> []" and "list_all isDigit ds"
  shows "extractWeekNumber (wk @ ds) = parseInt10 ds"
proof -
  from assms(1) have "length (toLowerCase wk) = length ''week''" by simp
  then have len: "length wk = 4" by (simp add: toLowerCase_def)
  with assms have "isWeekDirectory (wk @ ds)" by (simp add: isWeekDirectory_def)
  then have "getWeekNumber (wk @ ds) = parseInt10 (drop 4 (wk @ ds))"
    by (rule getWeekNumber_week_directory)
  with len show ?thesis by (simp add: getWeekNumber_def extractWeekNumber_def)
qed

lemma extractWeekNumber_examples:
  "extractWeekNumber ''week12'' = 12" "extractWeekNumber ''Week12'' = 12"
  "extractWeekNumber ''WEEK12'' = 12" "extractWeekNumber ''week'' = 0"
  "extractWeekNumber [] = 0"
  by (simp_all add: extractWeekNumber_def parseInt10_def decimal_value_def digit_value_def
        string_defs)

section \<open>Claims on the aggregation of a batch\<close>

lemma far_future_number: "extractWeekNumber ''week14282898'' = 14282898"
  by (simp add: extractWeekNumber_def parseInt10_def decimal_value_def digit_value_def
        string_defs)

lemma far_future_date:
  "calculateWeekStartDate (fixed_offset 0) ''week14282898'' = Inl InvalidTimeValue"
  using calculateWeekStartDate_result [OF steady_fixed_offset, of "''week14282898''" 0]
  by (simp add: far_future_number)

text \<open>
  C4 (as stated). The claim has every batch with a success return a result. The anchor
  date is formatted with \<^verbatim>\<open>toISOString\<close>, which throws on a date outside the range of
  time values: a success in the week directory \<^verbatim>\<open>week14282898\<close> ends the aggregation
  with a \<^verbatim>\<open>RangeError\<close>.
\<close>

theorem C4_far_future_week_counterexample:
  "processResults (fixed_offset 0) clock far_future_batch = Inl InvalidTimeValue
   \<and> success (hd far_future_batch)"
  by (simp add: processResults_cases weekName_of_def example_defs far_future_date)

text \<open>
  C4 (amended). The aggregation fails for want of successes exactly when every outcome
  of the batch is a failure. Failed outcomes have no part in the result: the batch and its
  successes alone give the same. A result counts as screenshots the successes, and holds
  one week. A batch with a success returns a result when the week number of its first
  success is below 14282898, and fails with the range error of the date otherwise. All of
  this in whatever time zone the process runs: the last part is proved for every zone
  whose offsets are less than two days apart, which holds of every fixed offset and of
  every zone with daylight saving time.
\<close>

theorem C4_processResults_counts_successes:
  "(processResults tz now rs = Inl NoSuccessfulResults \<longleftrightarrow> (\<forall>r \<in> set rs. \<not> success r))
   \<and> processResults tz now rs = processResults tz now (filter success rs)
   \<and> (\<forall>out. processResults tz now rs = Inr out \<longrightarrow>
          totalScreenshots (metadata out) = length (filter success rs)
          \<and> totalWeeks (metadata out) = 1 \<and> length (weeks out) = 1)
   \<and> ((\<exists>r \<in> set rs. success r) \<and> steady tz \<longrightarrow>
          (extractWeekNumber (weekName_of rs) < 14282898 \<longrightarrow>
             (\<exists>out. processResults tz now rs = Inr out))
          \<and> (14282898 \<le> extractWeekNumber (weekName_of rs) \<longrightarrow>
               processResults tz now rs = Inl InvalidTimeValue))
   \<and> steady (fixed_offset ms)"
proof -
  have a: "processResults tz now rs = Inl NoSuccessfulResults \<longleftrightarrow> (\<forall>r \<in> set rs. \<not> success r)"
    by (rule processResults_empty_iff)
  have b: "processResults tz now rs = processResults tz now (filter success rs)"
    by (rule processResults_successes_only)
  have c: "totalScreenshots (metadata out) = length (filter success rs)
          \<and> totalWeeks (metadata out) = 1 \<and> length (weeks out) = 1"
    if r: "processResults tz now rs = Inr out" for out
    using processResults_Inr [OF r] by auto
  have d: "(extractWeekNumber (weekName_of rs) < 14282898 \<longrightarrow>
             (\<exists>out. processResults tz now rs = Inr out))
          \<and> (14282898 \<le> extractWeekNumber (weekName_of rs) \<longrightarrow>
               processResults tz now rs = Inl InvalidTimeValue)"
    if s: "\<exists>r \<in> set rs. success r" and z: "steady tz"
    using s z by (rule processResults_returns)
  from a b c d steady_fixed_offset [of ms] show ?thesis by blast
qed

text \<open>A batch of one failure and two successes; the first success is in \<^verbatim>\<open>Week12\<close>.\<close>

theorem C4_processResults_counts_successes_witness:
  "(\<exists>r \<in> set week12_batch. success r)
   \<and> steady New_York_2024
   \<and> extractWeekNumber (weekName_of week12_batch) < 14282898
   \<and> length week12_batch = 3
   \<and> length (filter success week12_batch) = 2
   \<and> (\<exists>out. processResults New_York_2024 clock week12_batch = Inr out
          \<and> totalScreenshots (metadata out) = 2)"
proof -
  have s: "\<exists>r \<in> set week12_batch. success r"
    by (simp add: example_defs)
  have z: "steady New_York_2024"
    by (simp add: steady_def New_York_2024_def msPerDay_def)
  have f: "filter success week12_batch = tl week12_batch"
    by (simp add: example_defs)
  then have l: "length (filter success week12_batch) = 2" "length week12_batch = 3"
    by (simp_all add: week12_batch_def)
  have n: "extractWeekNumber (weekName_of week12_batch) = 12"
    unfolding weekName_of_def f
    by (simp add: example_defs extractWeekNumber_def parseInt10_def decimal_value_def
          digit_value_def string_defs)
  note inst = C4_processResults_counts_successes [of New_York_2024 clock week12_batch]
  note returns = inst [THEN conjunct2, THEN conjunct2, THEN conjunct2, THEN conjunct1,
      rule_format, THEN conjunct1, rule_format]
  note counts = inst [THEN conjunct2, THEN conjunct2, THEN conjunct1, rule_format,
      THEN conjunct1]
  from n have "extractWeekNumber (weekName_of week12_batch) < 14282898" by simp
  with s z returns obtain out where o: "processResults New_York_2024 clock week12_batch = Inr out"
    by blast
  from counts [OF o] l have "totalScreenshots (metadata out) = 2" by simp
  with o have "\<exists>out. processResults New_York_2024 clock week12_batch = Inr out
          \<and> totalScreenshots (metadata out) = 2"
    by blast
  with s z n l show ?thesis by simp
qed

lemma epoch_text: "format_date (plus_days epoch 0) = ''2024-01-01''"
  by code_simp

lemma week1_number: "extractWeekNumber ''week1'' = 1"
  by (simp add: extractWeekNumber_def parseInt10_def decimal_value_def digit_value_def
        string_defs)

lemma week1_date: "calculateWeekStartDate (fixed_offset 0) ''week1'' = Inr ''2024-01-01''"
  using calculateWeekStartDate_in_range [of "''week1''" 0]
  by (simp add: week1_number epoch_text)

section \<open>The period number and the anchor date\<close>

text \<open>
  An empty label of the first success is replaced by \<^verbatim>\<open>week1\<close> before the digits are read
  (\<^verbatim>\<open>|| 'week1'\<close>): the period number of such a batch is 1.
\<close>

lemma unnamed_week_is_week1:
  "processResults (fixed_offset 0) clock unnamed_week_batch =
     Inr \<lparr>weeks = [\<lparr>weekNumber = 1, weekDate = ''2024-01-01'',
                     dailyData = [\<lparr>day = ''Monday'', entries = [entry 1 ''Ann'' 100]\<rparr>],
                     weeklyData = []\<rparr>],
          metadata = \<lparr>totalWeeks = 1, totalScreenshots = 1, extractedAt = clock\<rparr>\<rparr>"
proof -
  have n: "weekName_of unnamed_week_batch = ''week1''"
    by (simp add: weekName_of_def example_defs)
  have f: "filter success unnamed_week_batch = unnamed_week_batch"
    by (simp add: example_defs)
  have a: "foldl addResultToWeekData
             \<lparr>weekNumber = 1, weekDate = ''2024-01-01'', dailyData = [], weeklyData = []\<rparr>
             unnamed_week_batch
           = \<lparr>weekNumber = 1, weekDate = ''2024-01-01'',
               dailyData = [\<lparr>day = ''Monday'', entries = [entry 1 ''Ann'' 100]\<rparr>],
               weeklyData = []\<rparr>"
    by (simp add: example_defs addResultToWeekData_def normalizeDayName_def DayOfWeek_defs
          string_defs merge_entries_def)
  have s: "sortDailyData [\<lparr>day = ''Monday'', entries = [entry 1 ''Ann'' 100]\<rparr>]
           = [\<lparr>day = ''Monday'', entries = [entry 1 ''Ann'' 100]\<rparr>]"
    by (simp add: sortDailyData_def)
  show ?thesis
    unfolding processResults_cases n week1_number f week1_date sum.case a
    by (simp add: s unnamed_week_batch_def)
qed

text \<open>
  With a fixed offset of local time the source does what it sets out to do. Let the label
  be the period label of the first successful entry, replaced by \<^verbatim>\<open>week1\<close> when it is
  empty, and \<open>n\<close> the number read from it: the value of the digits after the token (as a
  JavaScript number), and 0 for a label without digit. Every result carries \<open>n\<close> as its
  period number. When \<open>n\<close> is at most 416168 (the anchor lies before the year 10000) the
  aggregation returns, and the anchor date is the text \<^verbatim>\<open>YYYY-MM-DD\<close> of 2024-01-01 plus
  \<open>(n - 1) * 7\<close> days.
\<close>

lemma anchor_date_fixed_offset:
  assumes "\<exists>r \<in> set rs. success r"
  shows
    "(let label = week (sfile (hd (filter success rs)));
          used = (if label = [] then ''week1'' else label);
          n = extractWeekNumber used
      in (\<forall>wk ds. used = wk @ ds \<and> toLowerCase wk = ''week'' \<and> ds \<noteq> [] \<and> list_all isDigit ds
            \<longrightarrow> n = parseInt10 ds)
         \<and> ((\<forall>c \<in> set used. \<not> isDigit c) \<longrightarrow> n = 0)
         \<and> (\<forall>out. processResults tz now rs = Inr out \<longrightarrow> map weekNumber (weeks out) = [n])
         \<and> (n \<le> 416168 \<longrightarrow>
              (\<exists>out w. processResults (fixed_offset ms) now rs = Inr out \<and> weeks out = [w]
                 \<and> weekNumber w = n
                 \<and> weekDate w = format_date (plus_days epoch ((n - 1) * 7)))))"
proof -
  define used where "used = weekName_of rs"
  define n where "n = extractWeekNumber used"
  have a: "\<forall>wk ds. used = wk @ ds \<and> toLowerCase wk = ''week'' \<and> ds \<noteq> [] \<and> list_all isDigit ds
            \<longrightarrow> n = parseInt10 ds"
    unfolding n_def by (auto simp: extractWeekNumber_week_digits)
  have b: "(\<forall>c \<in> set used. \<not> isDigit c) \<longrightarrow> n = 0"
    unfolding n_def by (auto simp: extractWeekNumber_no_digit)
  have c: "\<forall>out. processResults tz now rs = Inr out \<longrightarrow> map weekNumber (weeks out) = [n]"
  proof (intro allI impI)
    fix out assume "processResults tz now rs = Inr out"
    from processResults_Inr(3) [OF this] show "map weekNumber (weeks out) = [n]"
      unfolding n_def used_def by auto
  qed
  have d: "n \<le> 416168 \<longrightarrow>
              (\<exists>out w. processResults (fixed_offset ms) now rs = Inr out \<and> weeks out = [w]
                 \<and> weekNumber w = n
                 \<and> weekDate w = format_date (plus_days epoch ((n - 1) * 7)))"
  proof
    assume le: "n \<le> 416168"
    then have "extractWeekNumber (weekName_of rs) < 14282898" by (simp add: n_def used_def)
    with processResults_returns [OF assms steady_fixed_offset, of ms now]
    obtain out where o: "processResults (fixed_offset ms) now rs = Inr out" by blast
    from processResults_Inr(3) [OF o] obtain w where w: "weeks out = [w]" "weekNumber w = n"
      "calculateWeekStartDate (fixed_offset ms) (weekName_of rs) = Inr (weekDate w)"
      unfolding n_def used_def by blast
    from le have "calculateWeekStartDate (fixed_offset ms) (weekName_of rs)
                  = Inr (format_date (plus_days epoch ((n - 1) * 7)))"
      unfolding n_def used_def by (rule calculateWeekStartDate_in_range)
    with w(3) have "weekDate w = format_date (plus_days epoch ((n - 1) * 7))" by simp
    with o w show "\<exists>out w. processResults (fixed_offset ms) now rs = Inr out \<and> weeks out = [w]
                 \<and> weekNumber w = n
                 \<and> weekDate w = format_date (plus_days epoch ((n - 1) * 7))"
      by blast
  qed
  from a b c d show ?thesis
    unfolding n_def used_def weekName_of_def Let_def by (intro conjI)
qed

lemma epoch_plus_77: "format_date (plus_days epoch 77) = ''2024-03-18''"
  by code_simp

lemma march_17_text: "format_date (2024, 3, 17) = ''2024-03-17''"
  by code_simp

lemma ymd_march_17: "ymd 1710716400000 = (2024, 3, 17)"
  by (simp add: ymd_def YearFromTime_def YearFromDay_def Day_def msPerDay_def
        DayFromYear_def MonthFromTime_def DateFromTime_def DayWithinYear_def InLeapYear_def
        DaysInYear_def Let_def)

lemma week12_New_York: "calculateWeekStartDate New_York_2024 ''Week12'' = Inr ''2024-03-17''"
proof -
  have u: "1710716400000 = UTC New_York_2024 (LocalTime New_York_2024 1704067200000
             + (extractWeekNumber ''Week12'' - 1) * 7 * msPerDay)"
    by (simp add: extractWeekNumber_examples UTC_def LocalTime_def New_York_2024_def
          msPerDay_def)
  have "calculateWeekStartDate New_York_2024 ''Week12''
          = Inr (format_date (ymd 1710716400000))"
    by (rule calculateWeekStartDate_ymd [OF u]) simp_all
  then show ?thesis
    unfolding ymd_march_17 march_17_text .
qed

lemma week12_fixed_offset:
  "calculateWeekStartDate (fixed_offset ms) ''Week12'' = Inr ''2024-03-18''"
  using calculateWeekStartDate_in_range [of "''Week12''" ms]
  by (simp add: extractWeekNumber_examples epoch_plus_77)

text \<open>
  C8. The claim has the anchor date be 2024-01-01 plus \<open>(n - 1) * 7\<close> days. The source
  sets out to compute this (``Calculate the start date of a week''): it reads 2024-01-01
  as a UTC midnight, moves the day of the month by \<open>(n - 1) * 7\<close> in local time
  (\<^verbatim>\<open>getDate\<close>, \<^verbatim>\<open>setDate\<close>) and prints the UTC date. In a process in the zone of New York the
  start is 19:00 of the day before, five hours behind UTC; for the label \<^verbatim>\<open>Week12\<close> the
  local time reached is 19:00 of 2024-03-17, in daylight saving time, four hours behind:
  23:00 UTC of 2024-03-17. The anchor date of the batch is a day before the date of the
  claim, 2024-03-18, which the same source gives with any fixed offset.
\<close>

theorem C8_anchor_date_a_day_early_in_New_York:
  "(case processResults New_York_2024 clock week12_batch of
      Inl e \<Rightarrow> []
    | Inr out \<Rightarrow> map (\<lambda>w. (weekNumber w, weekDate w)) (weeks out)) = [(12, ''2024-03-17'')]
   \<and> week (sfile (hd (filter success week12_batch))) = ''Week12''
   \<and> calculateWeekStartDate New_York_2024 ''Week12'' = Inr ''2024-03-17''
   \<and> format_date (plus_days epoch ((12 - 1) * 7)) = ''2024-03-18''
   \<and> calculateWeekStartDate (fixed_offset 0) ''Week12'' = Inr ''2024-03-18''
   \<and> calculateWeekStartDate (fixed_offset (- 18000000)) ''Week12'' = Inr ''2024-03-18''"
proof -
  have f: "filter success week12_batch \<noteq> []"
    by (simp add: example_defs)
  have l: "week (sfile (hd (filter success week12_batch))) = ''Week12''"
    by (simp add: example_defs)
  then have n: "weekName_of week12_batch = ''Week12''"
    by (simp add: weekName_of_def)
  have "(case processResults New_York_2024 clock week12_batch of
      Inl e \<Rightarrow> []
    | Inr out \<Rightarrow> map (\<lambda>w. (weekNumber w, weekDate w)) (weeks out)) = [(12, ''2024-03-17'')]"
    unfolding processResults_cases n week12_New_York sum.case
    using f by (simp add: extractWeekNumber_examples)
  moreover have "format_date (plus_days epoch ((12 - 1) * 7)) = ''2024-03-18''"
    by (simp add: epoch_plus_77)
  ultimately show ?thesis
    using l week12_New_York week12_fixed_offset by (intro conjI)
qed

section \<open>The aggregation leaves its input as it was\<close>

subsection \<open>The store\<close>

lemma lookup_new:
  "lookup (snd (alloc h ob)) b =
     (if b < length h then lookup h b else if b = length h then Some ob else None)"
  by (auto simp: lookup_def alloc_def nth_append)

lemma fst_new [simp]: "fst (alloc h ob) = length h"
  by (simp add: alloc_def)

lemma length_new [simp]: "length (snd (alloc h ob)) = Suc (length h)"
  by (simp add: alloc_def)

lemma take_new: "n \<le> length h \<Longrightarrow> take n (snd (alloc h ob)) = take n h"
  by (simp add: alloc_def)

lemma length_set_elems [simp]: "length (set_elems h a xs) = length h"
  by (simp add: set_elems_def split: option.splits obj.splits)

lemma take_set_elems: "n \<le> a \<Longrightarrow> take n (set_elems h a xs) = take n h"
  by (simp add: set_elems_def split: option.splits obj.splits)

lemma lookup_set_elems:
  "lookup (set_elems h a xs) b =
     (if b = a then (case lookup h a of Some (ArrayObj ys) \<Rightarrow> Some (ArrayObj xs) | x \<Rightarrow> x)
      else lookup h b)"
  by (auto simp: lookup_def set_elems_def split: option.splits obj.splits)

lemma lookup_Some_less: "lookup h a = Some ob \<Longrightarrow> a < length h"
  by (simp add: lookup_def split: if_splits)

lemma case_day_iff:
  "(case x of Some (DayObj nm e) \<Rightarrow> P nm e | _ \<Rightarrow> False)
     \<longleftrightarrow> (\<exists>nm e. x = Some (DayObj nm e) \<and> P nm e)"
proof (cases x)
  case None
  then show ?thesis by simp
next
  case (Some ob)
  then show ?thesis by (cases ob) simp_all
qed

lemma days_ok_iff:
  "days_ok n h dd ds \<longleftrightarrow>
     (\<forall>d \<in> set ds. n \<le> d \<and> (\<exists>nm e. lookup h d = Some (DayObj nm e) \<and> n \<le> e \<and> e \<noteq> dd))"
  unfolding days_ok_def list_all_iff case_day_iff ..

lemma case_array_iff:
  "(case x of Some (ArrayObj ds) \<Rightarrow> P ds | _ \<Rightarrow> False)
     \<longleftrightarrow> (\<exists>ds. x = Some (ArrayObj ds) \<and> P ds)"
proof (cases x)
  case None
  then show ?thesis by simp
next
  case (Some ob)
  then show ?thesis by (cases ob) simp_all
qed

lemma case_week_iff:
  "(case x of Some (WeekObj num dt dd wd) \<Rightarrow> P num dt dd wd | _ \<Rightarrow> False)
     \<longleftrightarrow> (\<exists>num dt dd wd. x = Some (WeekObj num dt dd wd) \<and> P num dt dd wd)"
proof (cases x)
  case None
  then show ?thesis by simp
next
  case (Some ob)
  then show ?thesis by (cases ob) simp_all
qed

lemma week_inv_iff:
  "week_inv n h wa \<longleftrightarrow>
     (\<exists>num dt dd wd. lookup h wa = Some (WeekObj num dt dd wd) \<and> n \<le> wa \<and> n \<le> dd
        \<and> n \<le> wd \<and> dd \<noteq> wd \<and> (\<exists>ds. lookup h dd = Some (ArrayObj ds) \<and> days_ok n h dd ds))"
  unfolding week_inv_def case_week_iff case_array_iff ..

lemma week_invI:
  assumes "lookup h wa = Some (WeekObj num dt dd wd)" and "n \<le> wa" and "n \<le> dd" and "n \<le> wd"
    and "dd \<noteq> wd" and "lookup h dd = Some (ArrayObj ds)" and "days_ok n h dd ds"
  shows "week_inv n h wa"
  unfolding week_inv_iff using assms by blast

lemma week_invE:
  assumes "week_inv n h wa"
  obtains num dt dd wd ds where "lookup h wa = Some (WeekObj num dt dd wd)" and "n \<le> wa"
    and "n \<le> dd" and "n \<le> wd" and "dd \<noteq> wd" and "lookup h dd = Some (ArrayObj ds)"
    and "days_ok n h dd ds"
  using assms unfolding week_inv_iff by blast

text \<open>A change of an array other than the array of buckets keeps the invariant.\<close>

lemma lookup_set_elems_day:
  "lookup h d = Some (DayObj nm e) \<Longrightarrow> lookup (set_elems h a xs) d = Some (DayObj nm e)"
  by (cases "d = a") (simp_all add: lookup_set_elems)

lemma lookup_set_elems_week:
  "lookup h w = Some (WeekObj num dt dd wd)
     \<Longrightarrow> lookup (set_elems h a xs) w = Some (WeekObj num dt dd wd)"
  by (cases "w = a") (simp_all add: lookup_set_elems)

lemma lookup_set_elems_other:
  "b \<noteq> a \<Longrightarrow> lookup (set_elems h a xs) b = lookup h b"
  by (simp add: lookup_set_elems)

lemma lookup_set_elems_same:
  "lookup h a = Some (ArrayObj ys) \<Longrightarrow> lookup (set_elems h a xs) a = Some (ArrayObj xs)"
  by (simp add: lookup_set_elems)

lemma lookup_new_old: "lookup h b = Some ob \<Longrightarrow> lookup (snd (alloc h ob')) b = Some ob"
  by (auto simp: lookup_new dest: lookup_Some_less)

lemma days_ok_set_elems:
  "days_ok n h dd ds \<Longrightarrow> days_ok n (set_elems h a xs) dd ds"
  unfolding days_ok_iff by (blast intro: lookup_set_elems_day)

lemma days_ok_new:
  "days_ok n h dd ds \<Longrightarrow> days_ok n (snd (alloc h ob)) dd ds"
  unfolding days_ok_iff by (blast intro: lookup_new_old)

lemma week_inv_set_elems:
  assumes "week_inv n h wa" and "lookup h wa = Some (WeekObj num dt dd wd)" and "a \<noteq> dd"
  shows "week_inv n (set_elems h a xs) wa"
proof -
  from assms(1) obtain num' dt' dd' wd' ds where w: "lookup h wa = Some (WeekObj num' dt' dd' wd')"
    "n \<le> wa" "n \<le> dd'" "n \<le> wd'" "dd' \<noteq> wd'" "lookup h dd' = Some (ArrayObj ds)"
    "days_ok n h dd' ds"
    by (rule week_invE)
  from w(1) assms(2) have e: "dd' = dd" "wd' = wd" "num' = num" "dt' = dt" by simp_all
  show ?thesis
  proof (rule week_invI)
    show "lookup (set_elems h a xs) wa = Some (WeekObj num dt dd wd)"
      using assms(2) by (rule lookup_set_elems_week)
    show "lookup (set_elems h a xs) dd = Some (ArrayObj ds)"
      using w(6) assms(3) e by (simp add: lookup_set_elems_other)
    show "days_ok n (set_elems h a xs) dd ds"
      using w(7) e by (simp add: days_ok_set_elems)
  qed (use w e in simp_all)
qed

lemma week_inv_new:
  assumes "week_inv n h wa"
  shows "week_inv n (snd (alloc h ob)) wa"
proof -
  from assms obtain num dt dd wd ds where w: "lookup h wa = Some (WeekObj num dt dd wd)"
    "n \<le> wa" "n \<le> dd" "n \<le> wd" "dd \<noteq> wd" "lookup h dd = Some (ArrayObj ds)"
    "days_ok n h dd ds"
    by (rule week_invE)
  show ?thesis
  proof (rule week_invI)
    show "lookup (snd (alloc h ob)) wa = Some (WeekObj num dt dd wd)"
      using w(1) by (rule lookup_new_old)
    show "lookup (snd (alloc h ob)) dd = Some (ArrayObj ds)"
      using w(6) by (rule lookup_new_old)
    show "days_ok n (snd (alloc h ob)) dd ds"
      using w(7) by (rule days_ok_new)
  qed (use w in simp_all)
qed

subsection \<open>The invariant through the loop\<close>

lemma snd_new: "snd (alloc h ob) = h @ [ob]"
  by (simp add: alloc_def)

lemma frame_inv_length: "frame_inv h0 h wa \<Longrightarrow> length h0 \<le> length h"
proof -
  assume "frame_inv h0 h wa"
  then have "take (length h0) h = h0" by (simp add: frame_inv_def)
  then have "length (take (length h0) h) = length h0" by simp
  then show ?thesis by simp
qed

lemma frame_inv_new:
  assumes "frame_inv h0 h wa"
  shows "frame_inv h0 (h @ [ob]) wa"
proof -
  have "length h0 \<le> length h" using assms by (rule frame_inv_length)
  moreover have "week_inv (length h0) (snd (alloc h ob)) wa"
    using assms by (simp add: frame_inv_def week_inv_new)
  ultimately show ?thesis using assms by (simp add: frame_inv_def snd_new)
qed

lemma lookup_append_old: "lookup h b = Some ob \<Longrightarrow> lookup (h @ [ob']) b = Some ob"
  using lookup_new_old [of h b ob ob'] by (simp add: snd_new)

lemma lookup_append_new: "lookup (h @ [ob]) (length h) = Some ob"
  by (simp add: lookup_def)

lemma frame_inv_set_elems:
  assumes "frame_inv h0 h wa" and "lookup h wa = Some (WeekObj num dt dd wd)"
    and "a \<noteq> dd" and "length h0 \<le> a"
  shows "frame_inv h0 (set_elems h a xs) wa"
  using assms by (simp add: frame_inv_def week_inv_set_elems take_set_elems)

lemma frame_inv_set_days:
  assumes "frame_inv h0 h wa" and "lookup h wa = Some (WeekObj num dt dd wd)"
    and "days_ok (length h0) h dd ds'"
  shows "frame_inv h0 (set_elems h dd ds') wa"
proof -
  from assms(1) have "week_inv (length h0) h wa" and t: "take (length h0) h = h0"
    by (simp_all add: frame_inv_def)
  then obtain num' dt' dd' wd' ds where w: "lookup h wa = Some (WeekObj num' dt' dd' wd')"
    "length h0 \<le> wa" "length h0 \<le> dd'" "length h0 \<le> wd'" "dd' \<noteq> wd'"
    "lookup h dd' = Some (ArrayObj ds)"
    by (auto elim: week_invE)
  from w(1) assms(2) have e: "dd' = dd" "wd' = wd" by simp_all
  have "week_inv (length h0) (set_elems h dd ds') wa"
  proof (rule week_invI)
    show "lookup (set_elems h dd ds') wa = Some (WeekObj num dt dd wd)"
      using assms(2) by (rule lookup_set_elems_week)
    show "lookup (set_elems h dd ds') dd = Some (ArrayObj ds')"
      using w(6) e by (simp add: lookup_set_elems_same)
    show "days_ok (length h0) (set_elems h dd ds') dd ds'"
      using assms(3) by (rule days_ok_set_elems)
  qed (use w e in simp_all)
  moreover have "take (length h0) (set_elems h dd ds') = h0"
    using w(3) e t by (simp add: take_set_elems)
  ultimately show ?thesis by (simp add: frame_inv_def)
qed

lemma frame_inv_week:
  assumes "frame_inv h0 h wa"
  obtains num dt dd wd ds where "lookup h wa = Some (WeekObj num dt dd wd)"
    and "length h0 \<le> dd" and "length h0 \<le> wd" and "dd \<noteq> wd"
    and "lookup h dd = Some (ArrayObj ds)" and "days_ok (length h0) h dd ds"
proof -
  from assms have "week_inv (length h0) h wa" by (simp add: frame_inv_def)
  then show ?thesis by (rule week_invE) (rule that)
qed

text \<open>The bucket found or created is one of the week's buckets.\<close>

lemma find_or_create_day_frame:
  assumes "frame_inv h0 h wa" and "lookup h wa = Some (WeekObj num dt dd wd)"
    and "find_or_create_day h dd nm = (d, h')"
  shows "frame_inv h0 h' wa \<and> lookup h' wa = Some (WeekObj num dt dd wd)
    \<and> (\<exists>ds'. lookup h' dd = Some (ArrayObj ds') \<and> d \<in> set ds')"
proof -
  from assms(1) obtain num' dt' dd' wd' ds where w: "lookup h wa = Some (WeekObj num' dt' dd' wd')"
    "length h0 \<le> dd'" "length h0 \<le> wd'" "dd' \<noteq> wd'"
    "lookup h dd' = Some (ArrayObj ds)" "days_ok (length h0) h dd' ds"
    by (rule frame_inv_week)
  from w(1) assms(2) have e: "dd' = dd" "wd' = wd" by simp_all
  have el: "elems h dd = ds" using w(5) e by (simp add: elems_def)
  show ?thesis
  proof (cases "find (\<lambda>d. day_at h d = nm) ds")
    case (Some x)
    then have "d = x" "h' = h" using assms(3) el by (simp_all add: find_or_create_day_def)
    moreover from Some have "x \<in> set ds" by (auto simp: find_Some_iff)
    ultimately show ?thesis using assms(1,2) w(5) e by simp
  next
    case None
    let ?e = "length h"
    let ?d = "Suc (length h)"
    let ?h2 = "(h @ [ArrayObj []]) @ [DayObj nm ?e]"
    have ddl: "dd < length h" using w(5) e by (auto dest: lookup_Some_less)
    have l2: "lookup ?h2 dd = Some (ArrayObj ds)"
      using w(5) e by (intro lookup_append_old) simp
    then have el2: "elems ?h2 dd = ds" by (simp add: elems_def)
    from None have r: "d = ?d" "h' = set_elems ?h2 dd (ds @ [?d])"
      using assms(3) el el2 by (auto simp: find_or_create_day_def alloc_def Let_def)
    have f2: "frame_inv h0 ?h2 wa"
      using assms(1) by (intro frame_inv_new)
    have wk2: "lookup ?h2 wa = Some (WeekObj num dt dd wd)"
      using assms(2) by (intro lookup_append_old)
    have ld: "lookup ?h2 ?d = Some (DayObj nm ?e)"
      using lookup_append_new [of "h @ [ArrayObj []]" "DayObj nm ?e"] by simp
    have n: "length h0 \<le> length h" using assms(1) by (rule frame_inv_length)
    have "days_ok (length h0) ?h2 dd ds"
      using w(6) e days_ok_new [of "length h0" h dd ds "ArrayObj []"]
        days_ok_new [of "length h0" "h @ [ArrayObj []]" dd ds "DayObj nm ?e"]
      by (simp add: snd_new)
    then have "days_ok (length h0) ?h2 dd (ds @ [?d])"
      using ld n ddl unfolding days_ok_iff by auto
    then have "frame_inv h0 (set_elems ?h2 dd (ds @ [?d])) wa"
      using f2 wk2 by (intro frame_inv_set_days)
    moreover have "lookup (set_elems ?h2 dd (ds @ [?d])) dd = Some (ArrayObj (ds @ [?d]))"
      using l2 by (rule lookup_set_elems_same)
    moreover have "lookup (set_elems ?h2 dd (ds @ [?d])) wa = Some (WeekObj num dt dd wd)"
      using wk2 by (rule lookup_set_elems_week)
    ultimately show ?thesis using r by simp
  qed
qed

lemma merge_entries_h_frame:
  assumes "frame_inv h0 h wa" and "lookup h wa = Some (WeekObj num dt dd wd)"
    and "lookup h dd = Some (ArrayObj ds)" and "d \<in> set ds"
  shows "frame_inv h0 (merge_entries_h h d extr) wa
    \<and> lookup (merge_entries_h h d extr) wa = Some (WeekObj num dt dd wd)"
proof -
  from assms(1) obtain num' dt' dd' wd' ds' where w: "lookup h wa = Some (WeekObj num' dt' dd' wd')"
    "lookup h dd' = Some (ArrayObj ds')" "days_ok (length h0) h dd' ds'"
    by (rule frame_inv_week)
  from w(1) assms(2) have e: "dd' = dd" by simp
  with w(2) assms(3) have "ds' = ds" by simp
  with w(3) e assms(4) obtain nm en where d: "lookup h d = Some (DayObj nm en)"
    "length h0 \<le> en" "en \<noteq> dd"
    unfolding days_ok_iff by blast
  have ea: "entries_at h d = Some en" using d(1) by (simp add: entries_at_def)
  obtain X Y Z where m: "merge_entries_h h d extr
      = set_elems (set_elems (h @ [ArrayObj X]) en Y) en Z"
    using ea by (simp add: merge_entries_h_def Let_def alloc_def)
  have 1: "frame_inv h0 (h @ [ArrayObj X]) wa" using assms(1) by (rule frame_inv_new)
  have w1: "lookup (h @ [ArrayObj X]) wa = Some (WeekObj num dt dd wd)"
    using assms(2) by (rule lookup_append_old)
  have 2: "frame_inv h0 (set_elems (h @ [ArrayObj X]) en Y) wa"
    using 1 w1 d(3) d(2) by (rule frame_inv_set_elems)
  have w2: "lookup (set_elems (h @ [ArrayObj X]) en Y) wa = Some (WeekObj num dt dd wd)"
    using w1 by (rule lookup_set_elems_week)
  have "frame_inv h0 (set_elems (set_elems (h @ [ArrayObj X]) en Y) en Z) wa"
    using 2 w2 d(3) d(2) by (rule frame_inv_set_elems)
  moreover have "lookup (set_elems (set_elems (h @ [ArrayObj X]) en Y) en Z) wa
      = Some (WeekObj num dt dd wd)"
    using w2 by (rule lookup_set_elems_week)
  ultimately show ?thesis unfolding m by simp
qed

lemma addResultToWeekData_h_frame:
  assumes "frame_inv h0 h wa"
  shows "frame_inv h0 (addResultToWeekData_h h wa r) wa
    \<and> lookup (addResultToWeekData_h h wa r) wa = lookup h wa"
proof -
  from assms obtain num dt dd wd ds where w: "lookup h wa = Some (WeekObj num dt dd wd)"
    "length h0 \<le> dd" "length h0 \<le> wd" "dd \<noteq> wd"
    "lookup h dd = Some (ArrayObj ds)" "days_ok (length h0) h dd ds"
    by (rule frame_inv_week)
  show ?thesis
  proof (cases "normalizeDayName (dayDir_at h r) = WEEKLY")
    case True
    obtain Y Z where m: "addResultToWeekData_h h wa r = set_elems (set_elems h wd Y) wd Z"
      using True w(1) by (simp add: addResultToWeekData_h_def Let_def)
    have 1: "frame_inv h0 (set_elems h wd Y) wa"
      using assms w(1) w(4) [symmetric] w(3) by (rule frame_inv_set_elems)
    have w1: "lookup (set_elems h wd Y) wa = Some (WeekObj num dt dd wd)"
      using w(1) by (rule lookup_set_elems_week)
    have "frame_inv h0 (set_elems (set_elems h wd Y) wd Z) wa"
      using 1 w1 w(4) [symmetric] w(3) by (rule frame_inv_set_elems)
    moreover have "lookup (set_elems (set_elems h wd Y) wd Z) wa = Some (WeekObj num dt dd wd)"
      using w1 by (rule lookup_set_elems_week)
    ultimately show ?thesis unfolding m using w(1) by simp
  next
    case False
    obtain d h1 where f: "find_or_create_day h dd (normalizeDayName (dayDir_at h r)) = (d, h1)"
      by (cases "find_or_create_day h dd (normalizeDayName (dayDir_at h r))")
    have m: "addResultToWeekData_h h wa r = merge_entries_h h1 d (extracted_at h r)"
      using False w(1) f by (simp add: addResultToWeekData_h_def Let_def)
    from find_or_create_day_frame [OF assms w(1) f]
    obtain ds' where 1: "frame_inv h0 h1 wa" "lookup h1 wa = Some (WeekObj num dt dd wd)"
      "lookup h1 dd = Some (ArrayObj ds')" "d \<in> set ds'"
      by blast
    show ?thesis unfolding m w(1) using 1 by (rule merge_entries_h_frame)
  qed
qed

lemma foldl_addResultToWeekData_h_frame:
  "frame_inv h0 h wa \<Longrightarrow>
     frame_inv h0 (foldl (\<lambda>hp r. addResultToWeekData_h hp wa r) h rs) wa
     \<and> lookup (foldl (\<lambda>hp r. addResultToWeekData_h hp wa r) h rs) wa = lookup h wa"
proof (induction rs arbitrary: h)
  case Nil
  then show ?case by simp
next
  case (Cons r rs)
  from addResultToWeekData_h_frame [OF Cons.prems, of r]
  have 1: "frame_inv h0 (addResultToWeekData_h h wa r) wa"
    and 2: "lookup (addResultToWeekData_h h wa r) wa = lookup h wa"
    by simp_all
  from Cons.IH [OF 1] 2 show ?case by simp
qed

lemma containers_fresh:
  assumes "week_inv n h wa" and "c \<in> set (containers h wa)"
  shows "n \<le> c"
proof -
  from assms(1) obtain num dt dd wd ds where w: "lookup h wa = Some (WeekObj num dt dd wd)"
    "n \<le> wa" "n \<le> dd" "n \<le> wd" "lookup h dd = Some (ArrayObj ds)" "days_ok n h dd ds"
    by (rule week_invE)
  have c: "containers h wa = wa # dd # wd # ds
      @ concat (map (\<lambda>d. case entries_at h d of Some e \<Rightarrow> [e] | None \<Rightarrow> []) ds)"
    using w(1,5) by (simp add: containers_def elems_def)
  from assms(2) consider "c = wa" | "c = dd" | "c = wd" | "c \<in> set ds"
    | d where "d \<in> set ds" "c \<in> set (case entries_at h d of Some e \<Rightarrow> [e] | None \<Rightarrow> [])"
    unfolding c by auto
  then show ?thesis
  proof cases
    case 4
    then show ?thesis using w(6) unfolding days_ok_iff by blast
  next
    case 5
    from 5(1) w(6) obtain nm e where "lookup h d = Some (DayObj nm e)" "n \<le> e"
      unfolding days_ok_iff by blast
    then show ?thesis using 5(2) by (simp add: entries_at_def)
  qed (use w in simp_all)
qed

text \<open>The week object and its two arrays, when they have just been made.\<close>

lemma frame_inv_init:
  "frame_inv h (((h @ [ob]) @ [ArrayObj []]) @ [ArrayObj []]
       @ [WeekObj num dt (Suc (length h)) (Suc (Suc (length h)))]) (Suc (Suc (Suc (length h))))"
  by (simp add: frame_inv_def week_inv_def days_ok_def lookup_def nth_append)

lemma elems_append_new: "elems (h @ [ArrayObj xs]) (length h) = xs"
  by (simp add: elems_def lookup_def)

lemma processResults_h_unfold:
  "processResults_h tz now h ra =
     (let S = filter (success_at h) (elems h ra);
          h1 = h @ [ArrayObj S];
          wn = (if week_at h1 (hd S) = [] then ''week1'' else week_at h1 (hd S))
      in if S = [] then (h1, Inl NoSuccessfulResults)
         else case calculateWeekStartDate tz wn of
                Inl e \<Rightarrow> (h1, Inl e)
              | Inr wDate \<Rightarrow>
                  (let dd = Suc (length h); wd = Suc (Suc (length h));
                       wa = Suc (Suc (Suc (length h)));
                       h4 = ((h1 @ [ArrayObj []]) @ [ArrayObj []])
                              @ [WeekObj (extractWeekNumber wn) wDate dd wd];
                       h5 = foldl (\<lambda>hp r. addResultToWeekData_h hp wa r) h4 S;
                       h6 = set_elems h5 dd
                              (sort_key (\<lambda>d. dailyOrderOf (day_at h5 d)) (elems h5 dd))
                   in (h6 @ [ArrayObj [wa]], Inr (length h6,
                        \<lparr>totalWeeks = 1, totalScreenshots = length S, extractedAt = now\<rparr>))))"
  unfolding processResults_h_def alloc_def Let_def prod.case elems_append_new
  by (simp split: sum.splits)

lemma week_loop_frame:
  assumes dd_def: "dd = Suc (length h)" and wd_def: "wd = Suc (Suc (length h))"
    and wa_def: "wa = Suc (Suc (Suc (length h)))"
    and h4_def: "h4 = (((h @ [ob]) @ [ArrayObj []]) @ [ArrayObj []]) @ [WeekObj num dt dd wd]"
    and h5_def: "h5 = foldl (\<lambda>hp r. addResultToWeekData_h hp wa r) h4 S"
    and h6_def: "h6 = set_elems h5 dd (sort_key (\<lambda>d. dailyOrderOf (day_at h5 d)) (elems h5 dd))"
  shows "frame_inv h (h6 @ [ArrayObj [wa]]) wa"
proof -
  have 4: "frame_inv h h4 wa"
    unfolding h4_def wa_def dd_def wd_def using frame_inv_init [of h ob num dt] by simp
  have w4: "lookup h4 wa = Some (WeekObj num dt dd wd)"
    unfolding h4_def wa_def by (simp add: lookup_def nth_append)
  from foldl_addResultToWeekData_h_frame [OF 4, of S]
  have 5: "frame_inv h h5 wa" and w5: "lookup h5 wa = Some (WeekObj num dt dd wd)"
    unfolding w4 h5_def by simp_all
  from 5 obtain num' dt' dd' wd' ds where w: "lookup h5 wa = Some (WeekObj num' dt' dd' wd')"
    "lookup h5 dd' = Some (ArrayObj ds)" "days_ok (length h) h5 dd' ds"
    by (rule frame_inv_week)
  from w(1) w5 have "dd' = dd" by simp
  with w have d5: "lookup h5 dd = Some (ArrayObj ds)" "days_ok (length h) h5 dd ds"
    by simp_all
  have "days_ok (length h) h5 dd (sort_key (\<lambda>d. dailyOrderOf (day_at h5 d)) (elems h5 dd))"
    using d5 by (simp add: elems_def days_ok_iff)
  with 5 w5 have 6: "frame_inv h h6 wa"
    unfolding h6_def by (rule frame_inv_set_days)
  then show ?thesis by (rule frame_inv_new)
qed

lemma processResults_h_frame:
  "take (length h) (fst (processResults_h tz now h ra)) = h
   \<and> (\<forall>wsa m. snd (processResults_h tz now h ra) = Inr (wsa, m) \<longrightarrow>
          (\<exists>wa. elems (fst (processResults_h tz now h ra)) wsa = [wa]
             \<and> week_inv (length h) (fst (processResults_h tz now h ra)) wa))"
proof -
  define S where "S = filter (success_at h) (elems h ra)"
  define h1 where "h1 = h @ [ArrayObj S]"
  define wn where "wn = (if week_at h1 (hd S) = [] then ''week1'' else week_at h1 (hd S))"
  show ?thesis
  proof (cases "S = []")
    case True
    then have "processResults_h tz now h ra = (h1, Inl NoSuccessfulResults)"
      unfolding processResults_h_unfold Let_def S_def h1_def by simp
    then show ?thesis by (simp add: h1_def)
  next
    case ne: False
    show ?thesis
    proof (cases "calculateWeekStartDate tz wn")
      case (Inl e)
      with ne have "processResults_h tz now h ra = (h1, Inl e)"
        unfolding processResults_h_unfold Let_def S_def h1_def wn_def by simp
      then show ?thesis by (simp add: h1_def)
    next
      case (Inr wDate)
      define dd where "dd = Suc (length h)"
      define wd where "wd = Suc (Suc (length h))"
      define wa where "wa = Suc (Suc (Suc (length h)))"
      define h4 where "h4 = (((h @ [ArrayObj S]) @ [ArrayObj []]) @ [ArrayObj []])
          @ [WeekObj (extractWeekNumber wn) wDate dd wd]"
      define h5 where "h5 = foldl (\<lambda>hp r. addResultToWeekData_h hp wa r) h4 S"
      define h6 where "h6 = set_elems h5 dd
          (sort_key (\<lambda>d. dailyOrderOf (day_at h5 d)) (elems h5 dd))"
      from ne Inr have r: "processResults_h tz now h ra = (h6 @ [ArrayObj [wa]], Inr (length h6,
          \<lparr>totalWeeks = 1, totalScreenshots = length S, extractedAt = now\<rparr>))"
        unfolding processResults_h_unfold Let_def S_def h1_def wn_def h6_def h5_def h4_def
          wa_def wd_def dd_def
        by simp
      have 7: "frame_inv h (h6 @ [ArrayObj [wa]]) wa"
        using dd_def wd_def wa_def h4_def h5_def h6_def by (rule week_loop_frame)
      have "elems (h6 @ [ArrayObj [wa]]) (length h6) = [wa]"
        by (rule elems_append_new)
      then show ?thesis using 7 unfolding r frame_inv_def by simp
    qed
  qed
qed

subsection \<open>Results read back\<close>

text \<open>What a store held, a longer store that begins with it holds.\<close>

lemma lookup_take:
  assumes "take (length h) h' = h" and "lookup h a = Some ob"
  shows "lookup h' a = Some ob"
proof -
  from assms(2) have a: "a < length h" and ob: "h ! a = ob"
    by (simp_all add: lookup_def split: if_splits)
  from assms(1) have "length (take (length h) h') = length h" by simp
  then have l: "length h \<le> length h'" by simp
  have "take (length h) h' ! a = h' ! a" using a by simp
  with assms(1) ob have "h' ! a = ob" by simp
  with a l show ?thesis by (simp add: lookup_def)
qed

lemma is_entry_iff: "is_entry h a \<longleftrightarrow> (\<exists>e. lookup h a = Some (EntryObj e))"
proof (cases "lookup h a")
  case None
  then show ?thesis by (simp add: is_entry_def)
next
  case (Some ob)
  then show ?thesis by (cases ob) (simp_all add: is_entry_def)
qed

lemma is_entry_take:
  assumes "take (length h) h' = h" and "is_entry h a"
  shows "is_entry h' a \<and> entry_at h' a = entry_at h a"
proof -
  from assms(2) obtain e where e: "lookup h a = Some (EntryObj e)"
    unfolding is_entry_iff by blast
  with assms(1) have "lookup h' a = Some (EntryObj e)" by (rule lookup_take)
  with e show ?thesis by (simp add: is_entry_iff entry_at_def)
qed

lemma read_result_result:
  assumes "read_result h r = Some x"
  obtains f ex s er t where "lookup h r = Some (ResultObj f ex s er t)"
proof (cases "lookup h r")
  case None
  with assms show ?thesis by (simp add: read_result_def)
next
  case (Some ob)
  with assms that show ?thesis by (cases ob) (simp_all add: read_result_def)
qed

lemma read_result_file:
  assumes "read_result h r = Some x" and "lookup h r = Some (ResultObj f ex s er t)"
  obtains sf where "lookup h f = Some (FileObj sf)"
proof (cases "lookup h f")
  case None
  with assms show ?thesis by (simp add: read_result_def)
next
  case (Some ob)
  with assms that show ?thesis by (cases ob) (simp_all add: read_result_def)
qed

lemma read_result_array:
  assumes "read_result h r = Some x" and "lookup h r = Some (ResultObj f ex s er t)"
    and "lookup h f = Some (FileObj sf)"
  obtains es where "lookup h ex = Some (ArrayObj es)"
proof (cases "lookup h ex")
  case None
  with assms show ?thesis by (simp add: read_result_def)
next
  case (Some ob)
  with assms that show ?thesis by (cases ob) (simp_all add: read_result_def)
qed

lemma read_result_eq:
  assumes "lookup h r = Some (ResultObj f ex s er t)" and "lookup h f = Some (FileObj sf)"
    and "lookup h ex = Some (ArrayObj es)"
  shows "read_result h r =
     (if list_all (is_entry h) es
      then Some \<lparr>sfile = sf, extracted = map (entry_at h) es, success = s, error = er,
                 processingTime = t\<rparr>
      else None)"
  using assms by (simp add: read_result_def)

lemma read_result_take:
  assumes "take (length h) h' = h" and "read_result h r = Some x"
  shows "read_result h' r = Some x"
proof -
  from assms(2) obtain f ex s er t where 1: "lookup h r = Some (ResultObj f ex s er t)"
    by (rule read_result_result)
  from assms(2) 1 obtain sf where 2: "lookup h f = Some (FileObj sf)"
    by (rule read_result_file)
  from assms(2) 1 2 obtain es where 3: "lookup h ex = Some (ArrayObj es)"
    by (rule read_result_array)
  note eq = read_result_eq [OF 1 2 3]
  from assms(2) have a: "list_all (is_entry h) es"
    unfolding eq by (simp split: if_splits)
  with assms(2) have x: "x = \<lparr>sfile = sf, extracted = map (entry_at h) es, success = s,
      error = er, processingTime = t\<rparr>"
    unfolding eq by simp
  have r1: "lookup h' r = Some (ResultObj f ex s er t)" using assms(1) 1 by (rule lookup_take)
  have r2: "lookup h' f = Some (FileObj sf)" using assms(1) 2 by (rule lookup_take)
  have r3: "lookup h' ex = Some (ArrayObj es)" using assms(1) 3 by (rule lookup_take)
  have "\<forall>e \<in> set es. is_entry h' e \<and> entry_at h' e = entry_at h e"
    using a is_entry_take [OF assms(1)] unfolding list_all_iff by blast
  then have "list_all (is_entry h') es" "map (entry_at h') es = map (entry_at h) es"
    unfolding list_all_iff by simp_all
  then show ?thesis unfolding read_result_eq [OF r1 r2 r3] x by simp
qed

subsection \<open>The stored batch\<close>

lemma processResults_h_success:
  assumes "filter (success_at h) (elems h ra) = S" and "S \<noteq> []"
    and "(if week_at (h @ [ArrayObj S]) (hd S) = [] then ''week1''
          else week_at (h @ [ArrayObj S]) (hd S)) = wn"
    and "calculateWeekStartDate tz wn = Inr wDate"
  shows "processResults_h tz now h ra =
     (let dd = Suc (length h); wd = Suc (Suc (length h));
          wa = Suc (Suc (Suc (length h)));
          h4 = (((h @ [ArrayObj S]) @ [ArrayObj []]) @ [ArrayObj []])
                 @ [WeekObj (extractWeekNumber wn) wDate dd wd];
          h5 = foldl (\<lambda>hp r. addResultToWeekData_h hp wa r) h4 S;
          h6 = set_elems h5 dd (sort_key (\<lambda>d. dailyOrderOf (day_at h5 d)) (elems h5 dd))
      in (h6 @ [ArrayObj [wa]], Inr (length h6,
           \<lparr>totalWeeks = 1, totalScreenshots = length S, extractedAt = now\<rparr>)))"
  unfolding processResults_h_unfold [of tz now h ra] assms(1)
  by (simp only: Let_def assms if_False sum.case)

lemma stored_successes:
  "filter (success_at (snd stored_batch)) (elems (snd stored_batch) (fst stored_batch)) = [5, 9, 15]"
  by code_simp

lemma stored_week_name:
  "(if week_at (snd stored_batch @ [ArrayObj [5, 9, 15]]) (hd [5, 9, 15]) = [] then ''week1''
    else week_at (snd stored_batch @ [ArrayObj [5, 9, 15]]) (hd [5, 9, 15])) = ''week1''"
  by code_simp

lemma stored_loop:
  "(let h = snd stored_batch; S = [5, 9, 15];
        dd = Suc (length h); wd = Suc (Suc (length h));
        wa = Suc (Suc (Suc (length h)));
        h4 = (((h @ [ArrayObj S]) @ [ArrayObj []]) @ [ArrayObj []])
               @ [WeekObj 1 ''2024-01-01'' dd wd];
        h5 = foldl (\<lambda>hp r. addResultToWeekData_h hp wa r) h4 S;
        h6 = set_elems h5 dd (sort_key (\<lambda>d. dailyOrderOf (day_at h5 d)) (elems h5 dd))
    in (h6 @ [ArrayObj [wa]], length h6, length S)) = (stored_after, 28, 3)"
  by code_simp

lemma stored_read: "read_result (snd stored_batch) 15 = Some monday_second"
  by code_simp

lemma stored_read_after: "read_result stored_after 15 = Some monday_second"
  by code_simp

lemma stored_containers: "containers stored_after 23 = [23, 21, 22, 25, 24]"
  by code_simp

lemma stored_run:
  "processResults_h (fixed_offset 0) clock (snd stored_batch) (fst stored_batch) =
     (stored_after, Inr (28, \<lparr>totalWeeks = 1, totalScreenshots = 3, extractedAt = clock\<rparr>))"
proof -
  have ne: "[5, 9, 15] \<noteq> ([] :: addr list)" by simp
  note r = processResults_h_success [OF stored_successes ne stored_week_name week1_date,
      of clock, unfolded Let_def week1_number]
  note l = stored_loop [unfolded Let_def prod.inject]
  show ?thesis unfolding r using l by simp
qed

lemma stored_length: "length (snd stored_batch) = 20"
  by code_simp

lemma stored_weeks: "elems stored_after 28 = [23]"
  by code_simp

lemma stored_week_read:
  "read_week stored_after 23 =
     Some \<lparr>weekNumber = 1, weekDate = ''2024-01-01'',
           dailyData = [\<lparr>day = ''Monday'',
                          entries = [entry 1 ''Ann'' 100, entry 2 ''Bob'' 90, entry 3 ''Cid'' 80,
                                     entry 4 ''Dan'' 70]\<rparr>],
           weeklyData = [entry 1 ''Ann'' 500]\<rparr>"
  by code_simp

text \<open>
  C10. The aggregation changes no object that the store held at the call: the store of the
  call is the beginning of the store after it. So every result that could be read before
  the call (its file descriptor, its flag, its error, its time and its records, in their
  order) reads the same after it. When the call returns a result, the week object of every
  returned week, its two arrays, its bucket objects and their arrays of records are objects
  made during the call: the pushes and the sorts of the aggregation are on these alone.
\<close>

theorem C10_processResults_h_keeps_its_input:
  "take (length h) (fst (processResults_h tz now h ra)) = h
   \<and> (\<forall>r x. read_result h r = Some x
          \<longrightarrow> read_result (fst (processResults_h tz now h ra)) r = Some x)
   \<and> (\<forall>wsa m. snd (processResults_h tz now h ra) = Inr (wsa, m) \<longrightarrow>
          (\<forall>wa \<in> set (elems (fst (processResults_h tz now h ra)) wsa).
             \<forall>c \<in> set (containers (fst (processResults_h tz now h ra)) wa). length h \<le> c))"
proof -
  let ?h' = "fst (processResults_h tz now h ra)"
  from processResults_h_frame [of h tz now ra]
  have t: "take (length h) ?h' = h"
    and w: "\<And>wsa m. snd (processResults_h tz now h ra) = Inr (wsa, m) \<Longrightarrow>
          \<exists>wa. elems ?h' wsa = [wa] \<and> week_inv (length h) ?h' wa"
    by blast+
  have "read_result ?h' r = Some x" if "read_result h r = Some x" for r x
    using t that by (rule read_result_take)
  moreover have "length h \<le> c"
    if "snd (processResults_h tz now h ra) = Inr (wsa, m)" and "wa \<in> set (elems ?h' wsa)"
      and "c \<in> set (containers ?h' wa)" for wsa m wa c
  proof -
    from w [OF that(1)] that(2) have "week_inv (length h) ?h' wa" by auto
    then show ?thesis using that(3) by (rule containers_fresh)
  qed
  ultimately show ?thesis using t by blast
qed

text \<open>
  The stored batch: the second Monday result reads the same before and after, and the five
  containers of the returned week are at the addresses 21 to 25, the store having held 20
  objects at the call.
\<close>

theorem C10_processResults_h_keeps_its_input_witness:
  "read_result (snd stored_batch) 15 = Some monday_second
   \<and> read_result stored_after 15 = Some monday_second
   \<and> take (length (snd stored_batch)) stored_after = snd stored_batch
   \<and> length (snd stored_batch) = 20
   \<and> snd (processResults_h (fixed_offset 0) clock (snd stored_batch) (fst stored_batch))
       = Inr (28, \<lparr>totalWeeks = 1, totalScreenshots = 3, extractedAt = clock\<rparr>)
   \<and> elems stored_after 28 = [23]
   \<and> containers stored_after 23 = [23, 21, 22, 25, 24]
   \<and> length (snd stored_batch) \<le> 21"
proof -
  note inst = C10_processResults_h_keeps_its_input [of "snd stored_batch" "fixed_offset 0" clock
      "fst stored_batch", unfolded stored_run fst_conv snd_conv]
  note frame = inst [THEN conjunct1]
  note reads = inst [THEN conjunct2, THEN conjunct1, rule_format]
  note fresh = inst [THEN conjunct2, THEN conjunct2, rule_format]
  have s: "snd (processResults_h (fixed_offset 0) clock (snd stored_batch) (fst stored_batch))
       = Inr (28, \<lparr>totalWeeks = 1, totalScreenshots = 3, extractedAt = clock\<rparr>)"
    by (simp add: stored_run)
  have w: "23 \<in> set (elems stored_after 28)" by (simp add: stored_weeks)
  have c: "21 \<in> set (containers stored_after 23)" by (simp add: stored_containers)
  have "length (snd stored_batch) \<le> 21"
    using refl w c by (rule fresh)
  with frame reads [OF stored_read] s stored_read stored_containers stored_weeks stored_length
  show ?thesis by simp
qed

end
